theory Spec2Isabelle
  imports Complex_Main "HOL-Library.Multiset" "HOL-Library.Word"
begin

section \<open>Common data model\<close>

text \<open>
  The sources are Cython. Exceptions are values of a sum type (\<open>Inl\<close> the exception),
  loops are folds over the index range that stop at the first exception, and arrays are
  lists read and written by index after the bounds check the source performs.
\<close>

datatype error = ValueError | IndexError | ZeroDivisionError | KeyError | OverflowError | OutOfBounds

text \<open>
  \<open>KeyError\<close> stands for \<open>KeyError(key)\<close>; the key it carries is the one looked up.
  \<open>OutOfBounds\<close> is not a Python exception: it marks an access outside an array in a
  function compiled with \<open>boundscheck(False)\<close>, where the source has no defined behaviour.
\<close>

text \<open>
  A \<open>float64\<close> is either NaN or a number. Numbers are modelled as exact reals: rounding
  and the infinities are outside the model. A comparison with NaN is false, and
  arithmetic on NaN gives NaN.
\<close>

datatype float64 = NaN | Fin real

fun feq :: "float64 \<Rightarrow> float64 \<Rightarrow> bool" where
  "feq (Fin a) (Fin b) = (a = b)"
| "feq _ _ = False"


fun fadd :: "float64 \<Rightarrow> float64 \<Rightarrow> float64" where
  "fadd (Fin a) (Fin b) = Fin (a + b)"
| "fadd _ _ = NaN"


fun fmul :: "float64 \<Rightarrow> float64 \<Rightarrow> float64" where
  "fmul (Fin a) (Fin b) = Fin (a * b)"
| "fmul _ _ = NaN"

text \<open>Cython's division of two C doubles raises \<open>ZeroDivisionError\<close> on a zero divisor.\<close>

fun fdiv :: "float64 \<Rightarrow> float64 \<Rightarrow> error + float64" where
  "fdiv (Fin a) (Fin b) = (if b = 0 then Inl ZeroDivisionError else Inr (Fin (a / b)))"
| "fdiv _ _ = Inr NaN"

fun fval :: "float64 \<Rightarrow> real" where
  "fval (Fin a) = a"
| "fval NaN = 0"

text \<open>A store into an \<open>int32\<close> array keeps the low 32 bits, read as two's complement.\<close>

definition int32 :: "int \<Rightarrow> int" where
  "int32 x = (x + 2 ^ 31) mod 2 ^ 32 - 2 ^ 31"

text \<open>\<open>for i in range(n): body\<close>, stopping at the first exception.\<close>

fun foldE :: "('a \<Rightarrow> 's \<Rightarrow> error + 's) \<Rightarrow> 'a list \<Rightarrow> 's \<Rightarrow> error + 's" where
  "foldE f [] s = Inr s"
| "foldE f (x # xs) s = (case f x s of Inl e \<Rightarrow> Inl e | Inr s' \<Rightarrow> foldE f xs s')"

section \<open>Rolling median: the minimum-observations parameter\<close>

text \<open>\<open>_check_minp(minp, N)\<close> of sandbox.pyx.\<close>

definition check_minp :: "int \<Rightarrow> int \<Rightarrow> error + int" where
  "check_minp minp N =
     (if minp > N then Inr (N + 1)
      else if minp = 0 then Inr 1
      else if minp < 0 then Inl ValueError
      else Inr minp)"

section \<open>Aggregator: \<open>group_add\<close>, \<open>group_mean\<close>, \<open>group_var\<close>\<close>

text \<open>
  The three functions are decorated with \<open>wraparound(False)\<close> only, so every indexed
  access is bounds-checked and raises \<open>IndexError\<close> outside \<open>[0, len)\<close>. \<open>counts\<close> is
  the caller's \<open>int32\<close> array, updated in place; \<open>nobs\<close>, \<open>sumx\<close> and \<open>sumxx\<close> are
  \<open>float64\<close> arrays of the length of \<open>out\<close>, zero-initialised.
\<close>

type_synonym acc2 = "int list \<times> float64 list \<times> float64 list"
type_synonym acc3 = "int list \<times> float64 list \<times> float64 list \<times> float64 list"

text \<open>The loop body of \<open>group_add\<close> at index \<open>i\<close>; the state is \<open>(counts, nobs, sumx)\<close>.\<close>

definition group_add_step :: "float64 list \<Rightarrow> int list \<Rightarrow> nat \<Rightarrow> acc2 \<Rightarrow> error + acc2" where
  "group_add_step values labels i st =
     (case st of (counts, nobs, sumx) \<Rightarrow>
        if i \<ge> length labels then Inl IndexError
        else let lab = labels ! i in
          if lab < 0 then Inr st
          else if nat lab \<ge> length counts then Inl IndexError
          else let counts' = counts[nat lab := int32 (counts ! nat lab + 1)];
                   val = values ! i in
            if feq val val then
              (if nat lab \<ge> length nobs then Inl IndexError
               else Inr (counts',
                         nobs[nat lab := fadd (nobs ! nat lab) (Fin 1)],
                         sumx[nat lab := fadd (sumx ! nat lab) val]))
            else Inr (counts', nobs, sumx))"

text \<open>The loop body of \<open>group_mean\<close>: it reads \<open>values[i]\<close> before it increments \<open>counts[lab]\<close>.\<close>

definition group_mean_step :: "float64 list \<Rightarrow> int list \<Rightarrow> nat \<Rightarrow> acc2 \<Rightarrow> error + acc2" where
  "group_mean_step values labels i st =
     (case st of (counts, nobs, sumx) \<Rightarrow>
        if i \<ge> length labels then Inl IndexError
        else let lab = labels ! i in
          if lab < 0 then Inr st
          else let val = values ! i in
            if nat lab \<ge> length counts then Inl IndexError
            else let counts' = counts[nat lab := int32 (counts ! nat lab + 1)] in
              if feq val val then
                (if nat lab \<ge> length nobs then Inl IndexError
                 else Inr (counts',
                           nobs[nat lab := fadd (nobs ! nat lab) (Fin 1)],
                           sumx[nat lab := fadd (sumx ! nat lab) val]))
              else Inr (counts', nobs, sumx))"

text \<open>The loop body of \<open>group_var\<close>; the state is \<open>(counts, nobs, sumx, sumxx)\<close>.\<close>

definition group_var_step :: "float64 list \<Rightarrow> int list \<Rightarrow> nat \<Rightarrow> acc3 \<Rightarrow> error + acc3" where
  "group_var_step values labels i st =
     (case st of (counts, nobs, sumx, sumxx) \<Rightarrow>
        if i \<ge> length labels then Inl IndexError
        else let lab = labels ! i in
          if lab < 0 then Inr st
          else let val = values ! i in
            if nat lab \<ge> length counts then Inl IndexError
            else let counts' = counts[nat lab := int32 (counts ! nat lab + 1)] in
              if feq val val then
                (if nat lab \<ge> length nobs then Inl IndexError
                 else Inr (counts',
                           nobs[nat lab := fadd (nobs ! nat lab) (Fin 1)],
                           sumx[nat lab := fadd (sumx ! nat lab) val],
                           sumxx[nat lab := fadd (sumxx ! nat lab) (fmul val val)]))
              else Inr (counts', nobs, sumx, sumxx))"

text \<open>The accumulation passes: \<open>for i in range(len(values))\<close> from zeroed accumulators.\<close>

definition group_add_pass :: "float64 list \<Rightarrow> int list \<Rightarrow> float64 list \<Rightarrow> int list \<Rightarrow> error + acc2" where
  "group_add_pass out counts values labels =
     foldE (group_add_step values labels) [0..<length values]
       (counts, replicate (length out) (Fin 0), replicate (length out) (Fin 0))"

definition group_mean_pass :: "float64 list \<Rightarrow> int list \<Rightarrow> float64 list \<Rightarrow> int list \<Rightarrow> error + acc2" where
  "group_mean_pass out counts values labels =
     foldE (group_mean_step values labels) [0..<length values]
       (counts, replicate (length out) (Fin 0), replicate (length out) (Fin 0))"

definition group_var_pass :: "float64 list \<Rightarrow> int list \<Rightarrow> float64 list \<Rightarrow> int list \<Rightarrow> error + acc3" where
  "group_var_pass out counts values labels =
     foldE (group_var_step values labels) [0..<length values]
       (counts, replicate (length out) (Fin 0), replicate (length out) (Fin 0),
        replicate (length out) (Fin 0))"

text \<open>The finalising loops, \<open>for i in range(len(counts))\<close>, writing \<open>out[i]\<close>.\<close>

definition group_add_final :: "float64 list \<Rightarrow> float64 list \<Rightarrow> nat \<Rightarrow> float64 list \<Rightarrow> error + float64 list" where
  "group_add_final nobs sumx i out =
     (if i \<ge> length nobs then Inl IndexError
      else if feq (nobs ! i) (Fin 0) then Inr (out[i := NaN])
      else Inr (out[i := sumx ! i]))"



text \<open>The functions return nothing; the model returns the arrays they mutate, \<open>(out, counts)\<close>.\<close>

definition group_add :: "float64 list \<Rightarrow> int list \<Rightarrow> float64 list \<Rightarrow> int list \<Rightarrow> error + (float64 list \<times> int list)" where
  "group_add out counts values labels =
     (case group_add_pass out counts values labels of
        Inl e \<Rightarrow> Inl e
      | Inr (counts', nobs, sumx) \<Rightarrow>
          (case foldE (group_add_final nobs sumx) [0..<length counts'] out of
             Inl e \<Rightarrow> Inl e
           | Inr out' \<Rightarrow> Inr (out', counts')))"



text \<open>What the passes are compared with: the positions of a group and their statistics.\<close>

definition members :: "int list \<Rightarrow> nat \<Rightarrow> nat \<Rightarrow> nat list" where
  "members labels n g = filter (\<lambda>i. labels ! i = int g) [0..<n]"

definition observed :: "float64 list \<Rightarrow> int list \<Rightarrow> nat \<Rightarrow> nat \<Rightarrow> nat list" where
  "observed values labels n g =
     filter (\<lambda>i. labels ! i = int g \<and> feq (values ! i) (values ! i)) [0..<n]"

definition times_incremented :: "nat \<Rightarrow> int \<Rightarrow> int" where
  "times_incremented k c = ((\<lambda>x. int32 (x + 1)) ^^ k) c"



text \<open>Loop invariants of the accumulation passes after \<open>n\<close> iterations.\<close>

definition add_inv :: "float64 list \<Rightarrow> int list \<Rightarrow> int list \<Rightarrow> nat \<Rightarrow> nat \<Rightarrow> acc2 \<Rightarrow> bool" where
  "add_inv values labels c0 m n st =
     (case st of (c, nb, sx) \<Rightarrow>
        length c = length c0 \<and> length nb = m \<and> length sx = m \<and>
        (\<forall>g < length c0. c ! g = times_incremented (length (members labels n g)) (c0 ! g)) \<and>
        (\<forall>g < m. nb ! g = Fin (real (length (observed values labels n g))) \<and>
                  sx ! g = Fin (\<Sum>i\<leftarrow>observed values labels n g. fval (values ! i))))"

definition var_inv :: "float64 list \<Rightarrow> int list \<Rightarrow> int list \<Rightarrow> nat \<Rightarrow> nat \<Rightarrow> acc3 \<Rightarrow> bool" where
  "var_inv values labels c0 m n st =
     (case st of (c, nb, sx, sxx) \<Rightarrow>
        length c = length c0 \<and> length nb = m \<and> length sx = m \<and> length sxx = m \<and>
        (\<forall>g < length c0. c ! g = times_incremented (length (members labels n g)) (c0 ! g)) \<and>
        (\<forall>g < m. nb ! g = Fin (real (length (observed values labels n g))) \<and>
                  sx ! g = Fin (\<Sum>i\<leftarrow>observed values labels n g. fval (values ! i)) \<and>
                  sxx ! g = Fin (\<Sum>i\<leftarrow>observed values labels n g. fval (values ! i) * fval (values ! i))))"

section \<open>GroupSortIndexer: \<open>groupsort_indexer\<close>\<close>

text \<open>
  \<open>groupsort_indexer(index, ngroups)\<close> is decorated with \<open>wraparound(False)\<close> only: every
  indexed access is bounds-checked. \<open>counts\<close>, \<open>where\<close> and \<open>result\<close> are \<open>int32\<close> arrays
  (\<open>dtype='i4'\<close>), so each store keeps 32 bits.
\<close>

text \<open>First loop: \<open>counts[index[i] + 1] += 1\<close>.\<close>

definition count_step :: "int list \<Rightarrow> nat \<Rightarrow> int list \<Rightarrow> error + int list" where
  "count_step index i counts =
     (let k = index ! i + 1 in
      if k < 0 \<or> nat k \<ge> length counts then Inl IndexError
      else Inr (counts[nat k := int32 (counts ! nat k + 1)]))"

text \<open>Second loop, for \<open>1 <= i < ngroups + 1\<close>: \<open>where[i] = where[i - 1] + counts[i - 1]\<close>.\<close>

definition where_step :: "int list \<Rightarrow> nat \<Rightarrow> int list \<Rightarrow> error + int list" where
  "where_step counts i wh =
     (if i \<ge> length wh \<or> i - 1 \<ge> length counts then Inl IndexError
      else Inr (wh[i := int32 (wh ! (i - 1) + counts ! (i - 1))]))"

text \<open>
  Third loop: \<open>label = index[i] + 1; result[where[label]] = i; where[label] += 1\<close>.
  The state is \<open>(where, result)\<close>.
\<close>

definition place_step :: "int list \<Rightarrow> nat \<Rightarrow> int list \<times> int list \<Rightarrow> error + int list \<times> int list" where
  "place_step index i st =
     (case st of (wh, result) \<Rightarrow>
        let label = index ! i + 1 in
        if label < 0 \<or> nat label \<ge> length wh then Inl IndexError
        else let p = wh ! nat label in
          if p < 0 \<or> nat p \<ge> length result then Inl IndexError
          else Inr (wh[nat label := int32 (wh ! nat label + 1)],
                    result[nat p := int32 (int i)]))"

text \<open>\<open>np.zeros\<close> of a negative length raises \<open>ValueError\<close>.\<close>

definition groupsort_indexer :: "int list \<Rightarrow> int \<Rightarrow> error + int list" where
  "groupsort_indexer index ngroups =
     (if ngroups + 1 < 0 then Inl ValueError
      else let G = nat (ngroups + 1); n = length index in
        case foldE (count_step index) [0..<n] (replicate G 0) of
          Inl e \<Rightarrow> Inl e
        | Inr counts \<Rightarrow>
            (case foldE (where_step counts) [1..<G] (replicate G 0) of
               Inl e \<Rightarrow> Inl e
             | Inr wh \<Rightarrow>
                 (case foldE (place_step index) [0..<n] (wh, replicate n 0) of
                    Inl e \<Rightarrow> Inl e
                  | Inr (wh', result) \<Rightarrow> Inr result)))"

text \<open>
  For the proofs: the bucket of position \<open>j\<close>, the number of positions among the first \<open>i\<close>
  in bucket \<open>l\<close>, the number of positions in a bucket below \<open>l\<close>, and the slot that
  position \<open>j\<close> is written to.
\<close>

definition bucket :: "int list \<Rightarrow> nat \<Rightarrow> nat" where
  "bucket index j = nat (index ! j + 1)"

definition seen_in :: "int list \<Rightarrow> nat \<Rightarrow> nat \<Rightarrow> nat" where
  "seen_in index i l = length (filter (\<lambda>j. bucket index j = l) [0..<i])"

definition below :: "int list \<Rightarrow> nat \<Rightarrow> nat" where
  "below index l = length (filter (\<lambda>j. bucket index j < l) [0..<length index])"

definition slot :: "int list \<Rightarrow> nat \<Rightarrow> nat" where
  "slot index j = below index (bucket index j) + seen_in index j (bucket index j)"

definition valid_labels :: "int list \<Rightarrow> int \<Rightarrow> bool" where
  "valid_labels index ngroups = (\<forall>x \<in> set index. - 1 \<le> x \<and> x < ngroups)"


section \<open>Factorizer: \<open>group_labels\<close>\<close>

text \<open>
  An element of an object array is either a value that is not equal to itself (a float
  NaN: a missing key) or a hashable key, compared the way a dictionary compares its keys.
\<close>

datatype 'a pyobj = Missing | Key 'a

text \<open>Python's \<open>a != b\<close> on these objects.\<close>

fun py_ne :: "'a pyobj \<Rightarrow> 'a pyobj \<Rightarrow> bool" where
  "py_ne (Key a) (Key b) = (a \<noteq> b)"
| "py_ne _ _ = True"

text \<open>\<open>np.empty(n)\<close>: an array of \<open>n\<close> elements whose content is not specified.\<close>

definition np_empty :: "nat \<Rightarrow> 'b list" where
  "np_empty n = replicate n undefined"

text \<open>\<open>a[:stop]\<close> on an array: a negative \<open>stop\<close> counts from the end.\<close>

definition slice_to :: "'b list \<Rightarrow> int \<Rightarrow> 'b list" where
  "slice_to xs stop = (if stop < 0 then take (nat (int (length xs) + stop)) xs else take (nat stop) xs)"

text \<open>
  The state of the loop of \<open>group_labels\<close> is \<open>(ids, reverse, labels, counts, cnt)\<close>:
  two dictionaries, two \<open>int32\<close> arrays and the \<open>int32\<close> counter \<open>count\<close>, written \<open>cnt\<close> here. The function is compiled
  with \<open>boundscheck(False)\<close>.
\<close>

type_synonym 'a gl_state =
  "('a pyobj \<rightharpoonup> int) \<times> (int \<rightharpoonup> 'a pyobj) \<times> int list \<times> int list \<times> int"

definition group_labels_step :: "'a pyobj list \<Rightarrow> nat \<Rightarrow> 'a gl_state \<Rightarrow> error + 'a gl_state" where
  "group_labels_step values i st =
     (case st of (ids, reverse, labels, counts, cnt) \<Rightarrow>
        let val = values ! i in
        if py_ne val val then Inr (ids, reverse, labels[i := - 1], counts, cnt)
        else (case ids val of
                Some idx \<Rightarrow>
                  if idx < 0 \<or> nat idx \<ge> length counts then Inl OutOfBounds
                  else Inr (ids, reverse, labels[i := idx],
                            counts[nat idx := int32 (counts ! nat idx + 1)], cnt)
              | None \<Rightarrow>
                  if cnt < 0 \<or> nat cnt \<ge> length counts then Inl OutOfBounds
                  else Inr (ids(val \<mapsto> cnt), reverse(cnt \<mapsto> val), labels[i := cnt],
                            counts[nat cnt := 1], int32 (cnt + 1))))"

definition group_labels :: "'a pyobj list \<Rightarrow> error + ((int \<rightharpoonup> 'a pyobj) \<times> int list \<times> int list)" where
  "group_labels values =
     (let n = length values in
      case foldE (group_labels_step values) [0..<n] (Map.empty, Map.empty, np_empty n, np_empty n, 0) of
        Inl e \<Rightarrow> Inl e
      | Inr (ids, reverse, labels, counts, cnt) \<Rightarrow> Inr (reverse, labels, slice_to counts cnt))"

text \<open>For the proofs: the distinct non-missing keys of a sequence, in order of first occurrence.\<close>

definition firsts :: "'a pyobj list \<Rightarrow> 'a pyobj list" where
  "firsts vs = fold (\<lambda>v acc. if py_ne v v \<or> v \<in> set acc then acc else acc @ [v]) vs []"

text \<open>The loop invariant of \<open>group_labels\<close> after \<open>i\<close> iterations.\<close>

definition gl_inv :: "'a pyobj list \<Rightarrow> nat \<Rightarrow> 'a gl_state \<Rightarrow> bool" where
  "gl_inv values i st =
     (case st of (ids, reverse, labels, counts, cnt) \<Rightarrow>
        let U = firsts (take i values) in
        cnt = int (length U) \<and> length labels = length values \<and> length counts = length values \<and>
        dom ids = set U \<and>
        (\<forall>j < length U. ids (U ! j) = Some (int j) \<and> reverse (int j) = Some (U ! j)) \<and>
        (\<forall>j < i. labels ! j =
            (if py_ne (values ! j) (values ! j) then - 1 else the (ids (values ! j)))) \<and>
        (\<forall>j < i. \<not> py_ne (values ! j) (values ! j) \<and> values ! j \<notin> set (take j values) \<longrightarrow>
            labels ! j = int (length (firsts (take j values)))) \<and>
        (\<forall>g < length U. counts ! g = int (length (filter (\<lambda>l. l = int g) (take i labels)))))"


section \<open>HashTable: the khash table behind \<open>PyObjectHashTable\<close>\<close>

text \<open>
  Modelled from the spec: the khash implementation (\<open>khash.h\<close>: \<open>kh_get_pymap\<close>,
  \<open>kh_put_pymap\<close>, \<open>kh_exist_pymap\<close>) is not among the sources; \<open>khash.pxd\<close> only declares
  the table structure and the signatures. The table is a bucket array with a flag per
  bucket and parallel \<open>keys\<close> and \<open>vals\<close> arrays. The hash and the equality of the keys
  are parameters. A lookup probes from \<open>hash(key) mod n_buckets\<close> along a fixed quadratic
  sequence, skips deleted buckets, and stops at the first empty bucket or at a bucket
  whose key equals the key; "not found" is the bucket index \<open>n_buckets\<close>. \<open>vals\<close> is
  declared \<open>size_t *vals\<close>: the payloads are unsigned words, of 64 bits here (an LP64
  platform, where \<open>Py_ssize_t\<close> has 64 bits too). A store of a \<open>Py_ssize_t\<close> keeps its
  64 bits (\<open>word_of_int\<close>); a payload is read as an unsigned number (\<open>uint\<close>) where it
  is returned as a Python integer, and as a signed one (\<open>sint\<close>) where it is assigned
  to a \<open>Py_ssize_t\<close>.
\<close>

datatype flag = Bucket_Empty | Bucket_Occupied | Bucket_Deleted

record 'k kh_table =
  n_buckets :: nat
  n_live :: nat
  n_occupied :: nat
  flags :: "flag list"
  keys :: "'k list"
  vals :: "64 word list"

text \<open>
  Modelled from the spec: the table the constructor leaves behind, \<open>n\<close> empty buckets
  whose \<open>keys\<close> and \<open>vals\<close> are not initialised.
\<close>

definition kh_empty :: "nat \<Rightarrow> 'k kh_table" where
  "kh_empty n = \<lparr>n_buckets = n, n_live = 0, n_occupied = 0, flags = replicate n Bucket_Empty,
                 keys = replicate n undefined, vals = replicate n undefined\<rparr>"

text \<open>Modelled from the spec: the probe sequence of a key with hash \<open>h\<close> in \<open>n\<close> buckets.\<close>

definition probe_seq :: "nat \<Rightarrow> nat \<Rightarrow> nat list" where
  "probe_seq h n = map (\<lambda>j. (h + j * (j + 1) div 2) mod n) [0..<n]"

text \<open>Modelled from the spec: \<open>get\<close>, returning the bucket index or \<open>n_buckets\<close>.\<close>

fun kh_get_probe :: "('k \<Rightarrow> 'k \<Rightarrow> bool) \<Rightarrow> 'k kh_table \<Rightarrow> 'k \<Rightarrow> nat list \<Rightarrow> nat" where
  "kh_get_probe eq t key [] = n_buckets t"
| "kh_get_probe eq t key (b # bs) =
     (case flags t ! b of
        Bucket_Empty \<Rightarrow> n_buckets t
      | Bucket_Deleted \<Rightarrow> kh_get_probe eq t key bs
      | Bucket_Occupied \<Rightarrow> if eq (keys t ! b) key then b else kh_get_probe eq t key bs)"

definition kh_get :: "('k \<Rightarrow> nat) \<Rightarrow> ('k \<Rightarrow> 'k \<Rightarrow> bool) \<Rightarrow> 'k kh_table \<Rightarrow> 'k \<Rightarrow> nat" where
  "kh_get hash eq t key = kh_get_probe eq t key (probe_seq (hash key) (n_buckets t))"

text \<open>
  Modelled from the spec: \<open>put\<close> probes as \<open>get\<close> does and returns the slot with
  \<open>ret = 0\<close> when it meets an equal key; it inserts the key at the first empty (\<open>ret = 1\<close>) or
  deleted (\<open>ret = 2\<close>) bucket it reaches before one. The spec never resizes inside \<open>put\<close>
  and does not say what happens when the probe finds neither: then the model returns
  \<open>n_buckets\<close> and leaves the table as it is.
\<close>

fun kh_put_probe :: "('k \<Rightarrow> 'k \<Rightarrow> bool) \<Rightarrow> 'k kh_table \<Rightarrow> 'k \<Rightarrow> nat list \<Rightarrow> nat \<times> int" where
  "kh_put_probe eq t key [] = (n_buckets t, 0)"
| "kh_put_probe eq t key (b # bs) =
     (case flags t ! b of
        Bucket_Empty \<Rightarrow> (b, 1)
      | Bucket_Deleted \<Rightarrow> (b, 2)
      | Bucket_Occupied \<Rightarrow> if eq (keys t ! b) key then (b, 0) else kh_put_probe eq t key bs)"

definition kh_put :: "('k \<Rightarrow> nat) \<Rightarrow> ('k \<Rightarrow> 'k \<Rightarrow> bool) \<Rightarrow> 'k kh_table \<Rightarrow> 'k \<Rightarrow> nat \<times> int \<times> 'k kh_table" where
  "kh_put hash eq t key =
     (case kh_put_probe eq t key (probe_seq (hash key) (n_buckets t)) of
        (b, ret) \<Rightarrow>
          if ret = 0 then (b, ret, t)
          else (b, ret, t\<lparr>flags := (flags t)[b := Bucket_Occupied], keys := (keys t)[b := key],
                           n_live := n_live t + 1,
                           n_occupied := n_occupied t + (if ret = 1 then 1 else 0)\<rparr>))"

text \<open>Modelled from the spec: \<open>exist\<close>, the test that a bucket index names an occupied bucket.\<close>

definition kh_exist :: "'k kh_table \<Rightarrow> nat \<Rightarrow> bool" where
  "kh_exist t k = (k < n_buckets t \<and> flags t ! k = Bucket_Occupied)"

text \<open>
  The methods of \<open>PyObjectHashTable\<close> take the table \<open>self.table\<close> and return it with their
  result. \<open>get_item\<close>:
\<close>

definition get_item :: "('k \<Rightarrow> nat) \<Rightarrow> ('k \<Rightarrow> 'k \<Rightarrow> bool) \<Rightarrow> 'k kh_table \<Rightarrow> 'k \<Rightarrow> (error + int) \<times> 'k kh_table" where
  "get_item hash eq t val =
     (let k = kh_get hash eq t val in
      if k \<noteq> n_buckets t then (Inr (uint (vals t ! k)), t) else (Inl KeyError, t))"

text \<open>
  \<open>set_item(key, val)\<close>: \<open>val\<close> is declared \<open>Py_ssize_t\<close>, so a Python integer outside
  \<open>[-2^63, 2^63)\<close> raises \<open>OverflowError\<close> when the arguments are converted, before the
  body runs.
\<close>

definition set_item :: "('k \<Rightarrow> nat) \<Rightarrow> ('k \<Rightarrow> 'k \<Rightarrow> bool) \<Rightarrow> 'k kh_table \<Rightarrow> 'k \<Rightarrow> int \<Rightarrow> (error + unit) \<times> 'k kh_table" where
  "set_item hash eq t key val =
     (if val < - (2 ^ 63) \<or> 2 ^ 63 \<le> val then (Inl OverflowError, t)
      else case kh_put hash eq t key of
        (k, ret, t') \<Rightarrow>
          if kh_exist t' k then (Inr (), t'\<lparr>vals := (vals t')[k := word_of_int val]\<rparr>)
          else (Inl KeyError, t'))"

text \<open>
  \<open>lookup_locations\<close>: \<open>locs\<close> is an \<open>int32\<close> array, filled from position 0 upwards; the
  store of a payload keeps its low 32 bits.
\<close>

definition lookup_location :: "('k \<Rightarrow> nat) \<Rightarrow> ('k \<Rightarrow> 'k \<Rightarrow> bool) \<Rightarrow> 'k kh_table \<Rightarrow> 'k \<Rightarrow> int" where
  "lookup_location hash eq t val =
     (let k = kh_get hash eq t val in
      if k \<noteq> n_buckets t then int32 (uint (vals t ! k)) else - 1)"

definition lookup_locations :: "('k \<Rightarrow> nat) \<Rightarrow> ('k \<Rightarrow> 'k \<Rightarrow> bool) \<Rightarrow> 'k kh_table \<Rightarrow> 'k list \<Rightarrow> int list \<times> 'k kh_table" where
  "lookup_locations hash eq t values =
     (fold (\<lambda>i locs. locs[i := lookup_location hash eq t (values ! i)]) [0..<length values]
        (np_empty (length values)), t)"

text \<open>
  \<open>PyObjectHashTable.factorize\<close>. The state of the loop is
  \<open>(table, reverse, labels, counts, count)\<close>; \<open>idx\<close> and \<open>count\<close> are \<open>Py_ssize_t\<close>,
  \<open>labels\<close> and \<open>counts\<close> are \<open>int32\<close> arrays. sandbox.pyx is compiled with
  \<open>boundscheck=False\<close>. There is no test for a missing key.
\<close>

type_synonym 'k ht_state =
  "'k kh_table \<times> (int \<rightharpoonup> 'k) \<times> int list \<times> int list \<times> int"

definition factorize_step :: "('k \<Rightarrow> nat) \<Rightarrow> ('k \<Rightarrow> 'k \<Rightarrow> bool) \<Rightarrow> 'k list \<Rightarrow> nat \<Rightarrow> 'k ht_state \<Rightarrow> error + 'k ht_state" where
  "factorize_step hash eq values i st =
     (case st of (t, reverse, labels, counts, cnt) \<Rightarrow>
        let val = values ! i; k = kh_get hash eq t val in
        if k \<noteq> n_buckets t then
          (let idx = sint (vals t ! k) in
           if idx < 0 \<or> nat idx \<ge> length counts then Inl OutOfBounds
           else Inr (t, reverse, labels[i := int32 idx],
                     counts[nat idx := int32 (counts ! nat idx + 1)], cnt))
        else
          (case kh_put hash eq t val of
             (k, ret, t') \<Rightarrow>
               if k \<ge> n_buckets t' \<or> cnt < 0 \<or> nat cnt \<ge> length counts then Inl OutOfBounds
               else Inr (t'\<lparr>vals := (vals t')[k := word_of_int cnt]\<rparr>, reverse(cnt \<mapsto> val),
                         labels[i := int32 cnt], counts[nat cnt := 1], cnt + 1)))"

definition PyObjectHashTable_factorize :: "('k \<Rightarrow> nat) \<Rightarrow> ('k \<Rightarrow> 'k \<Rightarrow> bool) \<Rightarrow> 'k kh_table \<Rightarrow> 'k list \<Rightarrow> error + ('k kh_table \<times> (int \<rightharpoonup> 'k) \<times> int list \<times> int list)" where
  "PyObjectHashTable_factorize hash eq t values =
     (let n = length values in
      case foldE (factorize_step hash eq values) [0..<n] (t, Map.empty, np_empty n, np_empty n, 0) of
        Inl e \<Rightarrow> Inl e
      | Inr (t', reverse, labels, counts, cnt) \<Rightarrow> Inr (t', reverse, labels, slice_to counts cnt))"

text \<open>A key is absent from a table when no occupied bucket holds an equal key.\<close>

definition absent :: "('k \<Rightarrow> 'k \<Rightarrow> bool) \<Rightarrow> 'k kh_table \<Rightarrow> 'k \<Rightarrow> bool" where
  "absent eq t key =
     (\<forall>b \<in> {0..<n_buckets t}. flags t ! b = Bucket_Occupied \<longrightarrow> \<not> eq (keys t ! b) key)"

text \<open>The three arrays of a table have one entry per bucket.\<close>

definition kh_sized :: "'k kh_table \<Rightarrow> bool" where
  "kh_sized t = (length (flags t) = n_buckets t \<and> length (keys t) = n_buckets t \<and>
                 length (vals t) = n_buckets t)"

text \<open>
  The invariant of a table that has only been filled by \<open>put\<close> (\<open>PyObjectHashTable\<close> never
  deletes): no bucket is marked deleted, and the key of every occupied bucket is found in
  that bucket. It is stated for an equality that is an equivalence and a hash that gives
  equal keys the same value.
\<close>

definition key_protocol :: "('k \<Rightarrow> nat) \<Rightarrow> ('k \<Rightarrow> 'k \<Rightarrow> bool) \<Rightarrow> bool" where
  "key_protocol hash eq = (equivp eq \<and> (\<forall>a b. eq a b \<longrightarrow> hash a = hash b))"

definition kh_wf :: "('k \<Rightarrow> nat) \<Rightarrow> ('k \<Rightarrow> 'k \<Rightarrow> bool) \<Rightarrow> 'k kh_table \<Rightarrow> bool" where
  "kh_wf hash eq t =
     (kh_sized t \<and>
      (\<forall>b \<in> {0..<n_buckets t}.
         flags t ! b \<noteq> Bucket_Deleted \<and>
         (flags t ! b = Bucket_Occupied \<longrightarrow> kh_get hash eq t (keys t ! b) = b)))"

text \<open>
  Two tables of four buckets for the examples, with the identity as hash: the key 5 sits
  in bucket 1; the key 9 collides with it and sits in bucket 2, the next of its probe
  sequence 1, 2, 0, 3.
\<close>

definition table_5 :: "nat kh_table" where
  "table_5 = \<lparr>n_buckets = 4, n_live = 1, n_occupied = 1,
       flags = [Bucket_Empty, Bucket_Occupied, Bucket_Empty, Bucket_Empty],
       keys = [0, 5, 0, 0], vals = [0, 10, 0, 0]\<rparr>"

definition table_5_9 :: "nat kh_table" where
  "table_5_9 = \<lparr>n_buckets = 4, n_live = 2, n_occupied = 2,
       flags = [Bucket_Empty, Bucket_Occupied, Bucket_Occupied, Bucket_Empty],
       keys = [0, 5, 9, 0], vals = [0, 10, 20, 0]\<rparr>"

text \<open>
  For the example on object keys: a hash on \<open>nat pyobj\<close> and a table of four empty
  buckets (the content of \<open>keys\<close> and \<open>vals\<close> in an empty bucket is arbitrary).
\<close>

fun pyobj_hash :: "nat pyobj \<Rightarrow> nat" where
  "pyobj_hash Missing = 0"
| "pyobj_hash (Key k) = k"

definition objects_4 :: "nat pyobj kh_table" where
  "objects_4 = \<lparr>n_buckets = 4, n_live = 0, n_occupied = 0,
       flags = [Bucket_Empty, Bucket_Empty, Bucket_Empty, Bucket_Empty],
       keys = [Key 0, Key 0, Key 0, Key 0], vals = [0, 0, 0, 0]\<rparr>"

section \<open>\<open>duplicated\<close>\<close>

text \<open>
  \<open>duplicated(values, take_last)\<close>: \<open>values\<close> is a Python list, so its elements are
  references to objects, and one object may stand at several positions. An element is an
  address into a store \<open>heap\<close> that gives every object its value. Python's \<open>a == b\<close> on the
  values:
\<close>

fun py_eq :: "'a pyobj \<Rightarrow> 'a pyobj \<Rightarrow> bool" where
  "py_eq (Key a) (Key b) = (a = b)"
| "py_eq _ _ = False"

type_synonym addr = nat

text \<open>
  \<open>seen\<close> is a dictionary whose values are all \<open>None\<close>: the model keeps its keys, in
  insertion order. A dictionary takes two keys for one when they are the same object or
  when they are \<open>==\<close> (the hashes agree in both cases, for hashable values whose hash
  respects \<open>==\<close>). So a NaN, which is not \<open>==\<close> to itself, is still found under its own
  identity.
\<close>

definition key_eq :: "(addr \<Rightarrow> 'a pyobj) \<Rightarrow> addr \<Rightarrow> addr \<Rightarrow> bool" where
  "key_eq heap a b = (a = b \<or> py_eq (heap a) (heap b))"

text \<open>\<open>row in seen\<close>.\<close>

definition dict_contains :: "(addr \<Rightarrow> 'a pyobj) \<Rightarrow> addr list \<Rightarrow> addr \<Rightarrow> bool" where
  "dict_contains heap seen row = (\<exists>k \<in> set seen. key_eq heap k row)"

text \<open>
  The loop body at index \<open>i\<close>; the state is \<open>(seen, result)\<close>. \<open>result\<close> is a zeroed
  \<open>uint8\<close> array that only receives 0 and 1 and is returned as booleans.
\<close>

definition duplicated_step :: "(addr \<Rightarrow> 'a pyobj) \<Rightarrow> addr list \<Rightarrow> nat \<Rightarrow> addr list \<times> bool list \<Rightarrow> addr list \<times> bool list" where
  "duplicated_step heap values i st =
     (case st of (seen, result) \<Rightarrow>
        let row = values ! i in
        if dict_contains heap seen row then (seen, result[i := True])
        else (seen @ [row], result[i := False]))"

text \<open>\<open>for i from n > i >= 0\<close> runs from \<open>n - 1\<close> down to 0, \<open>for i from 0 <= i < n\<close> upwards.\<close>

definition duplicated :: "(addr \<Rightarrow> 'a pyobj) \<Rightarrow> addr list \<Rightarrow> bool \<Rightarrow> bool list" where
  "duplicated heap values take_last =
     (let n = length values in
      if take_last
      then snd (fold (duplicated_step heap values) (rev [0..<n]) ([], replicate n False))
      else snd (fold (duplicated_step heap values) [0..<n] ([], replicate n False)))"

text \<open>
  A store for the examples: the objects 0 and 2 are the number 1, object 1 is the number 2,
  and every other object is a NaN of its own.
\<close>

definition rows_heap :: "addr \<Rightarrow> int pyobj" where
  "rows_heap a = (if a = 0 \<or> a = 2 then Key 1 else if a = 1 then Key 2 else Missing)"


section \<open>OrderStatisticSkipList and \<open>roll_median\<close>\<close>

text \<open>
  Modelled from the spec: the skip list (\<open>skiplist.h\<close>: \<open>skiplist_init\<close>, \<open>skiplist_insert\<close>,
  \<open>skiplist_remove\<close>, \<open>skiplist_get\<close>) is not among the sources. It is a sequence of sorted
  values with duplicates; the randomised levels and the widths only serve the cost of the
  operations, so the model keeps the sequence of values. \<open>insert\<close> advances while the next
  value is \<open>\<le>\<close> the new one; \<open>remove\<close> deletes the first node with the value and does nothing
  when there is none; \<open>select(k)\<close> returns the value of rank \<open>k\<close> and fails when \<open>k\<close> is not
  below the size. \<open>skiplist_get\<close> reports the failure in \<open>ret\<close> (0 for failure); the value
  it returns then is not specified.
\<close>

type_synonym skiplist = "real list"

definition skiplist_init :: "int \<Rightarrow> skiplist" where
  "skiplist_init expected_size = []"

definition skiplist_insert :: "skiplist \<Rightarrow> real \<Rightarrow> skiplist" where
  "skiplist_insert sl v = takeWhile (\<lambda>x. x \<le> v) sl @ v # dropWhile (\<lambda>x. x \<le> v) sl"

definition skiplist_remove :: "skiplist \<Rightarrow> real \<Rightarrow> skiplist" where
  "skiplist_remove sl v = remove1 v sl"

definition skiplist_get :: "skiplist \<Rightarrow> int \<Rightarrow> float64 \<times> int" where
  "skiplist_get sl k =
     (if 0 \<le> k \<and> nat k < length sl then (Fin (sl ! nat k), 1) else (undefined, 0))"

text \<open>
  \<open>roll_median(arg, win, minp)\<close>. sandbox.pyx is compiled with \<open>boundscheck=False\<close> and
  \<open>wraparound=False\<close>. The state of both loops is \<open>(sl, nobs, output)\<close>. The statement
  \<open>minp = _check_minp(minp, N)\<close>, with \<open>N = len(arg)\<close>:
\<close>

definition roll_median_minp :: "float64 list \<Rightarrow> int \<Rightarrow> int \<Rightarrow> error + int" where
  "roll_median_minp arg win minp = check_minp minp (int (length arg))"

type_synonym rm_state = "skiplist \<times> int \<times> float64 list"

text \<open>The body of the first loop, \<open>for i from 0 <= i < minp - 1\<close>.\<close>

definition roll_median_fill :: "float64 list \<Rightarrow> nat \<Rightarrow> rm_state \<Rightarrow> error + rm_state" where
  "roll_median_fill arg i st =
     (case st of (sl, nobs, output) \<Rightarrow>
        let val = arg ! i in
        if feq val val then Inr (skiplist_insert sl (fval val), nobs + 1, output[i := NaN])
        else Inr (sl, nobs, output[i := NaN]))"

text \<open>The median of the \<open>nobs\<close> values of the skip list, as the second loop computes it.\<close>

definition roll_median_res :: "skiplist \<Rightarrow> int \<Rightarrow> error + float64" where
  "roll_median_res sl nobs =
     (let midpoint = nobs div 2 in
      if nobs mod 2 \<noteq> 0 then Inr (fst (skiplist_get sl midpoint))
      else fdiv (fadd (fst (skiplist_get sl midpoint)) (fst (skiplist_get sl (midpoint - 1))))
             (Fin 2))"

text \<open>The body of the second loop, \<open>for i from minp - 1 <= i < N\<close>.\<close>

definition roll_median_step :: "float64 list \<Rightarrow> int \<Rightarrow> int \<Rightarrow> nat \<Rightarrow> rm_state \<Rightarrow> error + rm_state" where
  "roll_median_step arg win minp i st =
     (case st of (sl, nobs, output) \<Rightarrow>
        let val = arg ! i in
        case (if int i > win - 1 then
                (if int i - win < 0 \<or> nat (int i - win) \<ge> length arg then Inl OutOfBounds
                 else let prev = arg ! nat (int i - win) in
                   if feq prev prev then Inr (skiplist_remove sl (fval prev), nobs - 1)
                   else Inr (sl, nobs))
              else Inr (sl, nobs)) of
          Inl e \<Rightarrow> Inl e
        | Inr (sl1, nobs1) \<Rightarrow>
            let (sl2, nobs2) = (if feq val val then (skiplist_insert sl1 (fval val), nobs1 + 1)
                                else (sl1, nobs1)) in
            case (if nobs2 \<ge> minp then roll_median_res sl2 nobs2 else Inr NaN) of
              Inl e \<Rightarrow> Inl e
            | Inr res \<Rightarrow> Inr (sl2, nobs2, output[i := res]))"

definition roll_median :: "float64 list \<Rightarrow> int \<Rightarrow> int \<Rightarrow> error + float64 list" where
  "roll_median arg win minp =
     (let N = length arg; output = np_empty N; sl = skiplist_init win in
      case roll_median_minp arg win minp of
        Inl e \<Rightarrow> Inl e
      | Inr minp' \<Rightarrow>
          (case foldE (roll_median_fill arg) [0..<nat (minp' - 1)] (sl, 0, output) of
             Inl e \<Rightarrow> Inl e
           | Inr st \<Rightarrow>
               (case foldE (roll_median_step arg win minp') [nat (minp' - 1)..<N] st of
                  Inl e \<Rightarrow> Inl e
                | Inr (sl', nobs, output') \<Rightarrow> Inr output')))"

text \<open>
  The rolling median as the specification words it, one step per position \<open>i\<close> for a window
  width \<open>w\<close> and a threshold \<open>minp\<close>: the value leaving the window is removed if it is not
  NaN, the incoming value is inserted if it is not NaN, and the output is the median of
  the live values when their number reaches the threshold, NaN otherwise.
\<close>

definition median_of_window :: "skiplist \<Rightarrow> int \<Rightarrow> error + float64" where
  "median_of_window sl nobs =
     (if nobs mod 2 \<noteq> 0 then Inr (fst (skiplist_get sl (nobs div 2)))
      else fdiv (fadd (fst (skiplist_get sl (nobs div 2))) (fst (skiplist_get sl (nobs div 2 - 1))))
             (Fin 2))"

definition rolling_step :: "float64 list \<Rightarrow> nat \<Rightarrow> int \<Rightarrow> nat \<Rightarrow> rm_state \<Rightarrow> error + rm_state" where
  "rolling_step arg w minp i st =
     (case st of (sl, nobs, output) \<Rightarrow>
        let (sl1, nobs1) =
              (if i \<ge> w \<and> feq (arg ! (i - w)) (arg ! (i - w))
               then (skiplist_remove sl (fval (arg ! (i - w))), nobs - 1) else (sl, nobs));
            (sl2, nobs2) =
              (if feq (arg ! i) (arg ! i)
               then (skiplist_insert sl1 (fval (arg ! i)), nobs1 + 1) else (sl1, nobs1))
        in case (if nobs2 \<ge> minp then median_of_window sl2 nobs2 else Inr NaN) of
             Inl e \<Rightarrow> Inl e
           | Inr res \<Rightarrow> Inr (sl2, nobs2, output[i := res]))"

definition rolling_median_spec :: "float64 list \<Rightarrow> nat \<Rightarrow> int \<Rightarrow> error + float64 list" where
  "rolling_median_spec arg w minp =
     (case foldE (rolling_step arg w minp) [0..<length arg] ([], 0, np_empty (length arg)) of
        Inl e \<Rightarrow> Inl e
      | Inr (sl, nobs, output) \<Rightarrow> Inr output)"

text \<open>For the proofs: the number of values that are not NaN among the first \<open>j\<close>.\<close>

definition live :: "float64 list \<Rightarrow> nat \<Rightarrow> int" where
  "live arg j = int (length (filter (\<lambda>v. feq v v) (take j arg)))"

text \<open>
  The window at position \<open>i\<close>: the values that are not NaN among the last \<open>w\<close> positions
  up to \<open>i\<close>; the median of a sorted sequence; and the value the rolling median has at
  position \<open>i\<close> for the threshold \<open>minp\<close>.
\<close>

definition window :: "float64 list \<Rightarrow> nat \<Rightarrow> nat \<Rightarrow> real list" where
  "window arg w i = map fval (filter (\<lambda>v. feq v v) (drop (Suc i - w) (take (Suc i) arg)))"

definition median_sorted :: "real list \<Rightarrow> real" where
  "median_sorted vs =
     (let n = length vs in
      if odd n then vs ! (n div 2) else (vs ! (n div 2) + vs ! (n div 2 - 1)) / 2)"

definition rolling_value :: "float64 list \<Rightarrow> nat \<Rightarrow> int \<Rightarrow> nat \<Rightarrow> float64" where
  "rolling_value arg w minp i =
     (let vs = sort (window arg w i) in
      if int (length vs) \<ge> minp then Fin (median_sorted vs) else NaN)"

definition win_values :: "float64 list \<Rightarrow> nat \<Rightarrow> nat \<Rightarrow> real multiset" where
  "win_values arg w i = mset (map fval (filter (\<lambda>v. feq v v) (drop (i - w) (take i arg))))"

section \<open>Proofs: loops and aggregation\<close>

lemma foldE_append:
  "foldE f (xs @ ys) s = (case foldE f xs s of Inl e \<Rightarrow> Inl e | Inr s' \<Rightarrow> foldE f ys s')"
  by (induction xs arbitrary: s) (auto split: sum.splits)

lemma foldE_upt_Suc:
  "foldE f [0..<Suc n] s = (case foldE f [0..<n] s of Inl e \<Rightarrow> Inl e | Inr s' \<Rightarrow> f n s')"
  by (simp add: foldE_append split: sum.splits)

lemma foldE_upt_SucE:
  assumes "foldE f [0..<Suc n] s = Inr t"
  obtains s' where "foldE f [0..<n] s = Inr s'" and "f n s' = Inr t"
  using assms by (cases "foldE f [0..<n] s") (auto simp: foldE_append split: sum.splits)

lemma members_Suc:
  "members labels (Suc n) g = members labels n g @ (if labels ! n = int g then [n] else [])"
  by (simp add: members_def)

lemma observed_Suc:
  "observed values labels (Suc n) g =
     observed values labels n g @
       (if labels ! n = int g \<and> feq (values ! n) (values ! n) then [n] else [])"
  by (simp add: observed_def)

lemma times_incremented_Suc:
  "times_incremented (Suc k) c = int32 (times_incremented k c + 1)"
  by (simp add: times_incremented_def)

lemma times_incremented_0: "times_incremented 0 c = c"
  by (simp add: times_incremented_def)

lemma feq_self: "feq v v \<longleftrightarrow> v \<noteq> NaN"
  by (cases v) auto

lemma var_step_inv:
  assumes "var_inv values labels c0 m n st" and "group_var_step values labels n st = Inr st'"
  shows "var_inv values labels c0 m (Suc n) st'"
proof -
  obtain c nb sx sxx where st: "st = (c, nb, sx, sxx)" by (cases st) auto
  show ?thesis
  proof (cases "labels ! n < 0")
    case True
    then have "st' = st" using assms(2) by (auto simp: group_var_step_def st split: if_splits)
    moreover have "members labels (Suc n) g = members labels n g" 
      and "observed values labels (Suc n) g = observed values labels n g" for g
      using True by (auto simp: members_Suc observed_Suc)
    ultimately show ?thesis using assms(1) by (simp add: var_inv_def st)
  next
    case False
    define l where "l = nat (labels ! n)"
    have lab: "labels ! n = int l" using False by (simp add: l_def)
    have eqg: "(labels ! n = int g) = (g = l)" for g using lab by auto
    show ?thesis
    proof (cases "values ! n")
      case NaN
      then have "st' = (c[l := int32 (c ! l + 1)], nb, sx, sxx)" and "l < length c"
        using assms(2) False
        by (auto simp: group_var_step_def st Let_def l_def split: if_splits)
      then show ?thesis using assms(1) NaN
        by (auto simp: var_inv_def st members_Suc observed_Suc eqg nth_list_update times_incremented_Suc)
    next
      case (Fin v)
      then have "st' = (c[l := int32 (c ! l + 1)], nb[l := fadd (nb ! l) (Fin 1)],
                    sx[l := fadd (sx ! l) (Fin v)], sxx[l := fadd (sxx ! l) (Fin (v * v))])" 
         and "l < length c" and "l < length nb"
        using assms(2) False
        by (auto simp: group_var_step_def st Let_def l_def split: if_splits)
      then show ?thesis using assms(1) Fin
        by (auto simp: var_inv_def st members_Suc observed_Suc eqg nth_list_update times_incremented_Suc)
    qed
  qed
qed

lemma var_pass_inv:
  "foldE (group_var_step values labels) [0..<n]
      (c0, replicate m (Fin 0), replicate m (Fin 0), replicate m (Fin 0)) = Inr st
   \<Longrightarrow> var_inv values labels c0 m n st"
proof (induction n arbitrary: st)
  case 0
  then show ?case
    by (auto simp: var_inv_def members_def observed_def times_incremented_0)
next
  case (Suc n)
  from Suc.prems obtain s' where
    s': "foldE (group_var_step values labels) [0..<n]
      (c0, replicate m (Fin 0), replicate m (Fin 0), replicate m (Fin 0)) = Inr s'"
    and step: "group_var_step values labels n s' = Inr st"
    by (rule foldE_upt_SucE)
  from Suc.IH[OF s'] step show ?case by (rule var_step_inv)
qed

lemma group_mean_step_eq: "group_mean_step values labels i st = group_add_step values labels i st"
  by (auto simp: group_mean_step_def group_add_step_def Let_def split: prod.splits)

lemma add_step_inv:
  assumes "add_inv values labels c0 m n st" and "group_add_step values labels n st = Inr st'"
  shows "add_inv values labels c0 m (Suc n) st'"
proof -
  obtain c nb sx where st: "st = (c, nb, sx)" by (cases st) auto
  show ?thesis
  proof (cases "labels ! n < 0")
    case True
    then have "st' = st" using assms(2) by (auto simp: group_add_step_def st split: if_splits)
    moreover have "members labels (Suc n) g = members labels n g" 
      and "observed values labels (Suc n) g = observed values labels n g" for g
      using True by (auto simp: members_Suc observed_Suc)
    ultimately show ?thesis using assms(1) by (simp add: add_inv_def st)
  next
    case False
    define l where "l = nat (labels ! n)"
    have lab: "labels ! n = int l" using False by (simp add: l_def)
    have eqg: "(labels ! n = int g) = (g = l)" for g using lab by auto
    show ?thesis
    proof (cases "values ! n")
      case NaN
      then have "st' = (c[l := int32 (c ! l + 1)], nb, sx)" and "l < length c"
        using assms(2) False
        by (auto simp: group_add_step_def st Let_def l_def split: if_splits)
      then show ?thesis using assms(1) NaN
        by (auto simp: add_inv_def st members_Suc observed_Suc eqg nth_list_update times_incremented_Suc)
    next
      case (Fin v)
      then have "st' = (c[l := int32 (c ! l + 1)], nb[l := fadd (nb ! l) (Fin 1)],
                    sx[l := fadd (sx ! l) (Fin v)])" 
         and "l < length c" and "l < length nb"
        using assms(2) False
        by (auto simp: group_add_step_def st Let_def l_def split: if_splits)
      then show ?thesis using assms(1) Fin
        by (auto simp: add_inv_def st members_Suc observed_Suc eqg nth_list_update times_incremented_Suc)
    qed
  qed
qed

lemma add_pass_inv:
  "foldE (group_add_step values labels) [0..<n]
      (c0, replicate m (Fin 0), replicate m (Fin 0)) = Inr st
   \<Longrightarrow> add_inv values labels c0 m n st"
proof (induction n arbitrary: st)
  case 0
  then show ?case
    by (auto simp: add_inv_def members_def observed_def times_incremented_0)
next
  case (Suc n)
  from Suc.prems obtain s' where
    s': "foldE (group_add_step values labels) [0..<n]
      (c0, replicate m (Fin 0), replicate m (Fin 0)) = Inr s'"
    and step: "group_add_step values labels n s' = Inr st"
    by (rule foldE_upt_SucE)
  from Suc.IH[OF s'] step show ?case by (rule add_step_inv)
qed

lemma mean_pass_eq: "group_mean_pass out counts values labels = group_add_pass out counts values labels"
proof -
  have "group_mean_step values labels = group_add_step values labels"
    by (intro ext) (rule group_mean_step_eq)
  then show ?thesis by (simp add: group_mean_pass_def group_add_pass_def)
qed





section \<open>Aggregator: the accumulation pass and the finalised outputs\<close>

lemma group_add_step_skip:
  "i < length labels \<Longrightarrow> labels ! i < 0 \<Longrightarrow> group_add_step values labels i st = Inr st"
  by (simp add: group_add_step_def split: prod.splits)

lemma group_var_step_skip:
  "i < length labels \<Longrightarrow> labels ! i < 0 \<Longrightarrow> group_var_step values labels i st = Inr st"
  by (simp add: group_var_step_def split: prod.splits)

text \<open>
  C5. In the accumulation pass of \<open>group_add\<close>, \<open>group_mean\<close> and \<open>group_var\<close>, an element
  with a negative label leaves the whole state as it is. When the pass completes,
  \<open>counts[g]\<close> has been incremented once for every position labelled \<open>g\<close>, whether the value
  there is NaN or not, while the observation count \<open>nobs[g]\<close>, the sum \<open>sumx[g]\<close> and the sum
  of squares \<open>sumxx[g]\<close> range over the positions labelled \<open>g\<close> whose value is not NaN.
\<close>

theorem aggregation_pass:
  "(i < length labels \<and> labels ! i < 0 \<longrightarrow>
      group_add_step values labels i st2 = Inr st2 \<and>
      group_mean_step values labels i st2 = Inr st2 \<and>
      group_var_step values labels i st3 = Inr st3) \<and>
   (group_add_pass out counts values labels = Inr (c, nb, sx) \<or>
    group_mean_pass out counts values labels = Inr (c, nb, sx) \<or>
    group_var_pass out counts values labels = Inr (c, nb, sx, sxx) \<longrightarrow>
      length c = length counts \<and>
      (\<forall>g < length counts.
         c ! g = times_incremented (length (members labels (length values) g)) (counts ! g)) \<and>
      (\<forall>g < length out.
         nb ! g = Fin (real (length (observed values labels (length values) g))) \<and>
         sx ! g = Fin (\<Sum>i\<leftarrow>observed values labels (length values) g. fval (values ! i)))) \<and>
   (group_var_pass out counts values labels = Inr (c, nb, sx, sxx) \<longrightarrow>
      (\<forall>g < length out.
         sxx ! g = Fin (\<Sum>i\<leftarrow>observed values labels (length values) g.
                          fval (values ! i) * fval (values ! i))))"
proof (intro conjI impI)
  assume "i < length labels \<and> labels ! i < 0"
  then show "group_add_step values labels i st2 = Inr st2"
    and "group_mean_step values labels i st2 = Inr st2"
    and "group_var_step values labels i st3 = Inr st3"
    by (simp_all add: group_add_step_skip group_var_step_skip group_mean_step_eq)
next
  assume "group_add_pass out counts values labels = Inr (c, nb, sx) \<or>
    group_mean_pass out counts values labels = Inr (c, nb, sx) \<or>
    group_var_pass out counts values labels = Inr (c, nb, sx, sxx)"
  then have "add_inv values labels counts (length out) (length values) (c, nb, sx)"
  proof (elim disjE)
    assume "group_add_pass out counts values labels = Inr (c, nb, sx)"
    then show ?thesis unfolding group_add_pass_def by (rule add_pass_inv)
  next
    assume "group_mean_pass out counts values labels = Inr (c, nb, sx)"
    then show ?thesis unfolding mean_pass_eq group_add_pass_def by (rule add_pass_inv)
  next
    assume "group_var_pass out counts values labels = Inr (c, nb, sx, sxx)"
    then have "var_inv values labels counts (length out) (length values) (c, nb, sx, sxx)"
      unfolding group_var_pass_def by (rule var_pass_inv)
    then show ?thesis by (simp add: var_inv_def add_inv_def)
  qed
  then show "length c = length counts"
    and "\<forall>g < length counts.
         c ! g = times_incremented (length (members labels (length values) g)) (counts ! g)"
    and "\<forall>g < length out.
         nb ! g = Fin (real (length (observed values labels (length values) g))) \<and>
         sx ! g = Fin (\<Sum>i\<leftarrow>observed values labels (length values) g. fval (values ! i))"
    by (simp_all add: add_inv_def)
next
  assume "group_var_pass out counts values labels = Inr (c, nb, sx, sxx)"
  then have "var_inv values labels counts (length out) (length values) (c, nb, sx, sxx)"
    unfolding group_var_pass_def by (rule var_pass_inv)
  then show "\<forall>g < length out.
         sxx ! g = Fin (\<Sum>i\<leftarrow>observed values labels (length values) g.
                          fval (values ! i) * fval (values ! i))"
    by (simp add: var_inv_def)
qed

text \<open>
  Witness for C5: two groups, one element with label \<open>-1\<close> and one NaN value. The NaN at
  position 1 is counted in \<open>counts[0]\<close> and in nothing else; position 3 is in no group.
\<close>

theorem aggregation_pass_witness:
  "group_var_pass [Fin 0, Fin 0] [0, 0] [Fin 1, NaN, Fin 3, Fin 7, Fin 6] [0, 0, 0, -1, 1]
     = Inr ([3, 1], [Fin 2, Fin 1], [Fin 4, Fin 6], [Fin 10, Fin 36]) \<and>
   group_var_step [Fin 1, NaN, Fin 3, Fin 7, Fin 6] [0, 0, 0, -1, 1] 3
       ([2, 0], [Fin 1, Fin 0], [Fin 1, Fin 0], [Fin 1, Fin 0])
     = Inr ([2, 0], [Fin 1, Fin 0], [Fin 1, Fin 0], [Fin 1, Fin 0]) \<and>
   [3, 1] ! 0 = times_incremented
       (length (members [0, 0, 0, -1, 1] (length [Fin 1, NaN, Fin 3, Fin 7, Fin 6]) 0)) ([0, 0] ! 0) \<and>
   [Fin 2, Fin 1] ! 0 = Fin (real (length
       (observed [Fin 1, NaN, Fin 3, Fin 7, Fin 6] [0, 0, 0, -1, 1]
          (length [Fin 1, NaN, Fin 3, Fin 7, Fin 6]) 0)))"
proof -
  have pass: "group_var_pass [Fin 0, Fin 0] [0, 0] [Fin 1, NaN, Fin 3, Fin 7, Fin 6] [0, 0, 0, -1, 1]
     = Inr ([3, 1], [Fin 2, Fin 1], [Fin 4, Fin 6], [Fin 10, Fin 36])"
    by (simp add: group_var_pass_def group_var_step_def upt_rec int32_def Let_def)
  have hyp: "(3::nat) < length [0, 0, 0, -1, 1::int] \<and> [0, 0, 0, -1, 1::int] ! 3 < 0"
    by simp
  note t = aggregation_pass [of 3 "[0, 0, 0, -1, 1]" "[Fin 1, NaN, Fin 3, Fin 7, Fin 6]"
        "([2, 0], [Fin 1, Fin 0], [Fin 1, Fin 0])"
        "([2, 0], [Fin 1, Fin 0], [Fin 1, Fin 0], [Fin 1, Fin 0])"
        "[Fin 0, Fin 0]" "[0, 0]" "[3, 1]" "[Fin 2, Fin 1]" "[Fin 4, Fin 6]" "[Fin 10, Fin 36]"]
  from t hyp have step:
    "group_var_step [Fin 1, NaN, Fin 3, Fin 7, Fin 6] [0, 0, 0, -1, 1] 3
       ([2, 0], [Fin 1, Fin 0], [Fin 1, Fin 0], [Fin 1, Fin 0])
     = Inr ([2, 0], [Fin 1, Fin 0], [Fin 1, Fin 0], [Fin 1, Fin 0])"
    by simp
  from t pass have c: "\<forall>g < length [0, 0::int]. [3, 1] ! g = times_incremented
       (length (members [0, 0, 0, -1, 1] (length [Fin 1, NaN, Fin 3, Fin 7, Fin 6]) g)) ([0, 0] ! g)"
    and n: "\<forall>g < length [Fin 0, Fin 0]. [Fin 2, Fin 1] ! g = Fin (real (length
       (observed [Fin 1, NaN, Fin 3, Fin 7, Fin 6] [0, 0, 0, -1, 1]
          (length [Fin 1, NaN, Fin 3, Fin 7, Fin 6]) g))) \<and>
       [Fin 4, Fin 6] ! g = Fin (\<Sum>i\<leftarrow>observed [Fin 1, NaN, Fin 3, Fin 7, Fin 6] [0, 0, 0, -1, 1]
          (length [Fin 1, NaN, Fin 3, Fin 7, Fin 6]) g. fval ([Fin 1, NaN, Fin 3, Fin 7, Fin 6] ! i))"
    by simp_all
  have c0: "[3, 1] ! 0 = times_incremented
       (length (members [0, 0, 0, -1, 1] (length [Fin 1, NaN, Fin 3, Fin 7, Fin 6]) 0)) ([0, 0] ! 0)"
    by (rule c [rule_format]) simp
  have n0: "[Fin 2, Fin 1] ! 0 = Fin (real (length
       (observed [Fin 1, NaN, Fin 3, Fin 7, Fin 6] [0, 0, 0, -1, 1]
          (length [Fin 1, NaN, Fin 3, Fin 7, Fin 6]) 0)))"
    using n [rule_format, of 0] by simp
  from pass step c0 n0 show ?thesis
    by (intro conjI)
qed




section \<open>GroupSortIndexer: permutation, order and stability\<close>

lemma int32_id: "- (2 ^ 31) \<le> x \<Longrightarrow> x < 2 ^ 31 \<Longrightarrow> int32 x = x"
  by (simp add: int32_def)

lemma int32_nat: "n < 2 ^ 31 \<Longrightarrow> int32 (int n) = int n"
  by (rule int32_id) auto

lemma seen_in_Suc:
  "seen_in index (Suc i) l = seen_in index i l + (if bucket index i = l then 1 else 0)"
  by (simp add: seen_in_def)

lemma seen_in_0: "seen_in index 0 l = 0"
  by (simp add: seen_in_def)

lemma seen_in_le: "seen_in index i l \<le> i"
  unfolding seen_in_def using length_filter_le [of _ "[0..<i]"] by simp

lemma seen_in_mono: "i \<le> i' \<Longrightarrow> seen_in index i l \<le> seen_in index i' l"
  by (induction i' rule: dec_induct) (auto simp: seen_in_Suc)

lemma filter_less_Suc:
  "length (filter (\<lambda>x. f x < Suc l) xs) =
     length (filter (\<lambda>x. f x < l) xs) + length (filter (\<lambda>x. f x = (l::nat)) xs)"
  by (induction xs) (auto simp: less_Suc_eq)

lemma below_Suc: "below index (Suc l) = below index l + seen_in index (length index) l"
  by (simp add: below_def seen_in_def filter_less_Suc)

lemma below_0: "below index 0 = 0"
  by (simp add: below_def)

lemma below_mono: "l \<le> l' \<Longrightarrow> below index l \<le> below index l'"
  by (induction l' rule: dec_induct) (auto simp: below_Suc)

lemma below_le: "below index l \<le> length index"
  unfolding below_def using length_filter_le [of _ "[0..<length index]"] by simp

lemma slot_less:
  assumes "j < length index"
  shows "slot index j < below index (Suc (bucket index j))"
proof -
  have "seen_in index (Suc j) (bucket index j) \<le> seen_in index (length index) (bucket index j)"
    using assms by (intro seen_in_mono) simp
  then show ?thesis
    by (simp add: slot_def below_Suc seen_in_Suc)
qed

lemma slot_bound: "j < length index \<Longrightarrow> slot index j < length index"
  using slot_less [of j index] below_le [of index "Suc (bucket index j)"] by simp

lemma slot_same_bucket:
  assumes "j < j'" and "bucket index j = bucket index j'"
  shows "slot index j < slot index j'"
proof -
  have "seen_in index (Suc j) (bucket index j) \<le> seen_in index j' (bucket index j)"
    using assms(1) by (intro seen_in_mono) simp
  then show ?thesis
    using assms(2) by (simp add: slot_def seen_in_Suc)
qed

lemma slot_lower_bucket:
  assumes "j < length index" and "bucket index j < bucket index j'"
  shows "slot index j < slot index j'"
proof -
  have "slot index j < below index (Suc (bucket index j))"
    using assms(1) by (rule slot_less)
  also have "\<dots> \<le> below index (bucket index j')"
    using assms(2) by (intro below_mono) simp
  also have "\<dots> \<le> slot index j'"
    by (simp add: slot_def)
  finally show ?thesis .
qed

lemma slot_inj:
  assumes "j < length index" and "j' < length index" and "slot index j = slot index j'"
  shows "j = j'"
proof (rule ccontr)
  assume ne: "j \<noteq> j'"
  consider "bucket index j < bucket index j'" | "bucket index j' < bucket index j"
    | "bucket index j = bucket index j'" by linarith
  then show False
  proof cases
    case 1 then show ?thesis using slot_lower_bucket [OF assms(1) 1] assms(3) by simp
  next
    case 2 then show ?thesis using slot_lower_bucket [OF assms(2) 2] assms(3) by simp
  next
    case 3
    then show ?thesis
      using ne slot_same_bucket [of j j' index] slot_same_bucket [of j' j index] assms(3)
      by (cases "j < j'") auto
  qed
qed

lemma valid_bucket:
  assumes "valid_labels index ngroups" and "j < length index"
  shows "index ! j + 1 \<ge> 0" and "nat (index ! j + 1) = bucket index j"
    and "bucket index j < nat (ngroups + 1)"
proof -
  have "index ! j \<in> set index" using assms(2) by simp
  then have "- 1 \<le> index ! j \<and> index ! j < ngroups"
    using assms(1) by (simp add: valid_labels_def)
  then show "index ! j + 1 \<ge> 0" and "nat (index ! j + 1) = bucket index j"
    and "bucket index j < nat (ngroups + 1)"
    by (auto simp: bucket_def)
qed

lemma map_upt_update:
  assumes "b < G" and "\<And>l. l < G \<Longrightarrow> g l = (if l = b then v else f l)"
  shows "(map f [0..<G])[b := v] = map g [0..<G]"
  using assms by (intro nth_equalityI) (auto simp: nth_list_update)

lemma count_pass:
  assumes "valid_labels index ngroups" and "length index < 2 ^ 31" and "i \<le> length index"
  shows "foldE (count_step index) [0..<i] (replicate (nat (ngroups + 1)) 0)
           = Inr (map (\<lambda>l. int (seen_in index i l)) [0..<nat (ngroups + 1)])"
  using assms(3)
proof (induction i)
  case 0
  show ?case by (simp add: seen_in_0 map_replicate_const)
next
  case (Suc i)
  then have i: "i < length index" by simp
  note vb = valid_bucket [OF assms(1) i]
  have "seen_in index i (bucket index i) \<le> i" by (rule seen_in_le)
  then have small: "int32 (int (seen_in index i (bucket index i)) + 1)
      = int (seen_in index i (bucket index i) + 1)"
    using i assms(2) int32_nat [of "seen_in index i (bucket index i) + 1"] by (simp add: ac_simps)
  have "count_step index i (map (\<lambda>l. int (seen_in index i l)) [0..<nat (ngroups + 1)])
      = Inr (map (\<lambda>l. int (seen_in index (Suc i) l)) [0..<nat (ngroups + 1)])"
    using vb small
    by (auto simp: count_step_def Let_def seen_in_Suc intro!: map_upt_update)
  then show ?case using Suc.IH i by (simp add: foldE_append)
qed

lemma where_pass:
  assumes "length index < 2 ^ 31" and "1 \<le> k" and "k \<le> G"
  shows "foldE (where_step (map (\<lambda>l. int (seen_in index (length index) l)) [0..<G])) [1..<k]
           (replicate G 0)
         = Inr (map (\<lambda>l. if l < k then int (below index l) else 0) [0..<G])"
  using assms(2,3)
proof (induction k rule: dec_induct)
  case base
  have "replicate G (0::int) = map (\<lambda>l. if l < 1 then int (below index l) else 0) [0..<G]"
    by (intro nth_equalityI) (auto simp: below_0)
  then show ?case by simp
next
  case (step k)
  then have k: "k < G" and k1: "k - 1 < k" "Suc (k - 1) = k" by auto
  have "below index k \<le> length index" by (rule below_le)
  then have small: "int32 (int (below index k)) = int (below index k)"
    using assms(1) by (intro int32_nat) simp
  have bk: "int (below index (k - 1)) + int (seen_in index (length index) (k - 1)) = int (below index k)"
    using below_Suc [of index "k - 1"] k1 by simp
  have "where_step (map (\<lambda>l. int (seen_in index (length index) l)) [0..<G]) k
          (map (\<lambda>l. if l < k then int (below index l) else 0) [0..<G])
        = Inr (map (\<lambda>l. if l < Suc k then int (below index l) else 0) [0..<G])"
    using k k1 step.hyps small bk
    by (auto simp: where_step_def intro!: map_upt_update)
  then show ?case using step by (simp add: foldE_append)
qed

lemma where_pass_all:
  assumes "length index < 2 ^ 31"
  shows "foldE (where_step (map (\<lambda>l. int (seen_in index (length index) l)) [0..<G])) [1..<G]
           (replicate G 0)
         = Inr (map (\<lambda>l. int (below index l)) [0..<G])"
proof (cases "G = 0")
  case True
  then show ?thesis by simp
next
  case False
  then have "1 \<le> G" by simp
  from where_pass [OF assms this order_refl] show ?thesis
    by (simp cong: map_cong)
qed

lemma place_pass:
  assumes "valid_labels index ngroups" and "length index < 2 ^ 31" and "i \<le> length index"
  shows "\<exists>res. foldE (place_step index) [0..<i]
             (map (\<lambda>l. int (below index l)) [0..<nat (ngroups + 1)], replicate (length index) 0)
           = Inr (map (\<lambda>l. int (below index l + seen_in index i l)) [0..<nat (ngroups + 1)], res)
         \<and> length res = length index \<and> (\<forall>j<i. res ! slot index j = int j)"
  using assms(3)
proof (induction i)
  case 0
  show ?case by (simp add: seen_in_0)
next
  case (Suc i)
  then have i: "i < length index" by simp
  with Suc.IH obtain res where
    run: "foldE (place_step index) [0..<i]
             (map (\<lambda>l. int (below index l)) [0..<nat (ngroups + 1)], replicate (length index) 0)
           = Inr (map (\<lambda>l. int (below index l + seen_in index i l)) [0..<nat (ngroups + 1)], res)"
    and len: "length res = length index" and old: "\<forall>j<i. res ! slot index j = int j"
    by auto
  note vb = valid_bucket [OF assms(1) i]
  have sl: "slot index i < length index" using i by (rule slot_bound)
  have small: "int32 (int (slot index i) + 1) = int (slot index i + 1)"
    using sl assms(2) int32_nat [of "slot index i + 1"] by (simp add: ac_simps)
  have small_i: "int32 (int i) = int i"
    using i assms(2) by (intro int32_nat) simp
  define wh where "wh = map (\<lambda>l. int (below index l + seen_in index i l)) [0..<nat (ngroups + 1)]"
  have lenwh: "length wh = nat (ngroups + 1)" by (simp add: wh_def)
  have whb: "wh ! bucket index i = int (slot index i)"
    using vb(3) by (simp add: wh_def slot_def)
  have upd: "wh[bucket index i := int (slot index i + 1)]
             = map (\<lambda>l. int (below index l + seen_in index (Suc i) l)) [0..<nat (ngroups + 1)]"
    unfolding wh_def using vb(3) by (intro map_upt_update) (auto simp: slot_def seen_in_Suc)
  have "place_step index i (wh, res)
        = Inr (wh[bucket index i := int (slot index i + 1)], res[slot index i := int i])"
    using vb sl len small small_i whb lenwh
    by (simp add: place_step_def Let_def)
  then have step: "place_step index i
          (map (\<lambda>l. int (below index l + seen_in index i l)) [0..<nat (ngroups + 1)], res)
        = Inr (map (\<lambda>l. int (below index l + seen_in index (Suc i) l)) [0..<nat (ngroups + 1)],
               res[slot index i := int i])"
    unfolding upd unfolding wh_def .
  have "\<forall>j<Suc i. (res[slot index i := int i]) ! slot index j = int j"
  proof (intro allI impI)
    fix j assume j: "j < Suc i"
    show "(res[slot index i := int i]) ! slot index j = int j"
    proof (cases "j = i")
      case True
      then show ?thesis using sl len by simp
    next
      case False
      then have ji: "j < i" using j by simp
      then have "slot index j \<noteq> slot index i"
        using slot_inj [of j index i] i by auto
      then show ?thesis using old ji by simp
    qed
  qed
  then show ?case using run step len by (simp add: foldE_append)
qed

lemma groupsort_slots:
  assumes "valid_labels index ngroups" and "length index < 2 ^ 31" and "- 1 \<le> ngroups"
  shows "\<exists>r. groupsort_indexer index ngroups = Inr r \<and> length r = length index \<and>
             (\<forall>j<length index. r ! slot index j = int j)"
proof -
  from place_pass [OF assms(1,2) order_refl] obtain res where
    "foldE (place_step index) [0..<length index]
             (map (\<lambda>l. int (below index l)) [0..<nat (ngroups + 1)], replicate (length index) 0)
           = Inr (map (\<lambda>l. int (below index l + seen_in index (length index) l)) [0..<nat (ngroups + 1)], res)"
    and "length res = length index" and "\<forall>j<length index. res ! slot index j = int j"
    by auto
  then show ?thesis
    using assms(3) count_pass [OF assms(1,2) order_refl] where_pass_all [OF assms(2)]
    by (simp add: groupsort_indexer_def Let_def)
qed

lemma slot_surj:
  assumes "p < length index"
  shows "\<exists>j<length index. slot index j = p"
proof -
  let ?N = "{..<length index}"
  have "inj_on (slot index) ?N"
    by (auto simp: inj_on_def intro: slot_inj)
  then have "card (slot index ` ?N) = card ?N" by (rule card_image)
  moreover have "slot index ` ?N \<subseteq> ?N" by (auto simp: slot_bound)
  ultimately have "slot index ` ?N = ?N" by (intro card_subset_eq) auto
  then have "p \<in> slot index ` ?N" using assms by simp
  then show ?thesis by auto
qed

lemma valid_bucket_less:
  assumes "valid_labels index ngroups" and "j < length index" and "j' < length index"
  shows "bucket index j < bucket index j' \<longleftrightarrow> index ! j < index ! j'"
    and "bucket index j = bucket index j' \<longleftrightarrow> index ! j = index ! j'"
  using valid_bucket(1,2) [OF assms(1,2)] valid_bucket(1,2) [OF assms(1,3)]
  by (auto simp: bucket_def)

text \<open>What the slots say about the returned array.\<close>

lemma slots_perm:
  assumes "length r = length index" and "\<forall>j<length index. r ! slot index j = int j"
  shows "distinct r" and "set r = {p. 0 \<le> p \<and> p < int (length index)}"
proof -
  have at: "\<exists>j<length index. slot index j = p \<and> r ! p = int j" if "p < length index" for p
    using slot_surj [OF that] assms(2) by auto
  show "distinct r"
    unfolding distinct_conv_nth
  proof (intro allI impI)
    fix p q assume p: "p < length r" and q: "q < length r" and ne: "p \<noteq> q"
    from at [of p] at [of q] p q assms(1) obtain j j' where
      "slot index j = p" "r ! p = int j" "slot index j' = q" "r ! q = int j'" by auto
    then show "r ! p \<noteq> r ! q" using ne by auto
  qed
  show "set r = {p. 0 \<le> p \<and> p < int (length index)}"
  proof (intro equalityI subsetI)
    fix x assume "x \<in> set r"
    then obtain p where "p < length r" and "r ! p = x" by (auto simp: in_set_conv_nth)
    then show "x \<in> {p. 0 \<le> p \<and> p < int (length index)}"
      using at [of p] assms(1) by auto
  next
    fix x assume "x \<in> {p. 0 \<le> p \<and> p < int (length index)}"
    then have "nat x < length index" and x: "int (nat x) = x" by auto
    then have "r ! slot index (nat x) = x" and "slot index (nat x) < length r"
      using assms slot_bound [of "nat x" index] by auto
    then show "x \<in> set r" by (metis nth_mem)
  qed
qed

lemma int_image_upt: "int ` {0..<n} = {p. 0 \<le> p \<and> p < int n}"
proof (intro equalityI subsetI)
  fix x assume "x \<in> int ` {0..<n}"
  then show "x \<in> {p. 0 \<le> p \<and> p < int n}" by auto
next
  fix x assume "x \<in> {p. 0 \<le> p \<and> p < int n}"
  then have "x = int (nat x)" and "nat x \<in> {0..<n}" by auto
  then show "x \<in> int ` {0..<n}" by (rule image_eqI)
qed

lemma slots_mset:
  assumes "length r = length index" and "\<forall>j<length index. r ! slot index j = int j"
  shows "mset (map (\<lambda>p. index ! nat p) r) = mset index"
proof -
  have "distinct (map int [0..<length index])"
    by (simp add: distinct_map inj_on_def)
  moreover have "set r = set (map int [0..<length index])"
    using slots_perm(2) [OF assms] by (simp add: int_image_upt)
  ultimately have "mset r = mset (map int [0..<length index])"
    using slots_perm(1) [OF assms] set_eq_iff_mset_eq_distinct [of r "map int [0..<length index]"]
    by blast
  then have "mset (map (\<lambda>p. index ! nat p) r)
               = mset (map (\<lambda>p. index ! nat p) (map int [0..<length index]))"
    by (metis mset_map)
  also have "\<dots> = mset (map (nth index) [0..<length index])"
    by (simp add: comp_def)
  finally show ?thesis by (simp add: map_nth)
qed

lemma slots_sorted:
  assumes "valid_labels index ngroups"
    and "length r = length index" and "\<forall>j<length index. r ! slot index j = int j"
  shows "sorted (map (\<lambda>p. index ! nat p) r)"
  unfolding sorted_iff_nth_mono
proof (intro allI impI)
  fix p q assume pq: "p \<le> q" and "q < length (map (\<lambda>p. index ! nat p) r)"
  then have q: "q < length index" and p: "p < length index" using assms(2) by auto
  from slot_surj [OF p] slot_surj [OF q] obtain j j' where
    j: "j < length index" "slot index j = p" and j': "j' < length index" "slot index j' = q"
    by auto
  have "\<not> index ! j' < index ! j"
  proof
    assume "index ! j' < index ! j"
    then have "bucket index j' < bucket index j"
      using valid_bucket_less(1) [OF assms(1) j'(1) j(1)] by simp
    then have "slot index j' < slot index j" using j'(1) by (rule slot_lower_bucket [rotated])
    then show False using pq j j' by simp
  qed
  moreover have "r ! p = int j" "r ! q = int j'" using assms(3) j j' by auto
  ultimately show "map (\<lambda>p. index ! nat p) r ! p \<le> map (\<lambda>p. index ! nat p) r ! q"
    using p q assms(2) by simp
qed

lemma count_minus_one:
  assumes "valid_labels index ngroups"
  shows "below index (Suc 0) = length (filter (\<lambda>x. x = - 1) index)"
proof -
  have "bucket index j < Suc 0 \<longleftrightarrow> index ! j = - 1" if "j < length index" for j
    using valid_bucket(1) [OF assms that] by (auto simp: bucket_def)
  then have "filter (\<lambda>j. bucket index j < Suc 0) [0..<length index]
          = filter (\<lambda>j. index ! j = - 1) [0..<length index]"
    by (intro filter_cong) auto
  then have "below index (Suc 0) = length (filter ((\<lambda>x. x = - 1) \<circ> nth index) [0..<length index])"
    by (simp add: below_def comp_def)
  also have "\<dots> = length (filter (\<lambda>x. x = - 1) (map (nth index) [0..<length index]))"
    by (simp add: filter_map)
  finally show ?thesis by (simp add: map_nth)
qed

lemma slots_missing_first:
  assumes "valid_labels index ngroups" and "j < length index"
  shows "index ! j = - 1 \<longleftrightarrow> slot index j < length (filter (\<lambda>x. x = - 1) index)"
proof
  assume "index ! j = - 1"
  then have "bucket index j = 0" by (simp add: bucket_def)
  then show "slot index j < length (filter (\<lambda>x. x = - 1) index)"
    using slot_less [OF assms(2)] count_minus_one [OF assms(1)] by simp
next
  assume lt: "slot index j < length (filter (\<lambda>x. x = - 1) index)"
  show "index ! j = - 1"
  proof (rule ccontr)
    assume "index ! j \<noteq> - 1"
    then have "Suc 0 \<le> bucket index j"
      using valid_bucket(1,2) [OF assms] by (auto simp: bucket_def)
    then have "below index (Suc 0) \<le> below index (bucket index j)" by (rule below_mono)
    then show False using lt count_minus_one [OF assms(1)] by (simp add: slot_def)
  qed
qed

text \<open>
  C4. For labels in \<open>[-1, ngroups)\<close> on an array that an \<open>int32\<close> index can address
  (fewer than \<open>2^31\<close> elements), \<open>groupsort_indexer\<close> returns a bijection on \<open>[0, n)\<close>:
  an array of length \<open>n\<close> without repetition whose elements are exactly \<open>0, ..., n - 1\<close>.
  Reading the labels in that order gives the labels sorted ascending, so equal labels
  are contiguous, and the positions labelled \<open>-1\<close> are exactly the first ones.
\<close>

theorem groupsort_indexer_permutation:
  assumes "\<forall>x \<in> set index. - 1 \<le> x \<and> x < ngroups" and "- 1 \<le> ngroups"
    and "length index < 2 ^ 31"
  shows "\<exists>r. groupsort_indexer index ngroups = Inr r \<and>
           length r = length index \<and> distinct r \<and>
           set r = {p. 0 \<le> p \<and> p < int (length index)} \<and>
           map (\<lambda>p. index ! nat p) r = sort index \<and>
           (\<forall>p < length index.
              index ! nat (r ! p) = - 1 \<longleftrightarrow> p < length (filter (\<lambda>x. x = - 1) index))"
proof -
  have v: "valid_labels index ngroups" using assms(1) by (simp add: valid_labels_def)
  from groupsort_slots [OF v assms(3,2)] obtain r where
    r: "groupsort_indexer index ngroups = Inr r"
    and len: "length r = length index"
    and sl: "\<forall>j<length index. r ! slot index j = int j"
    by auto
  have "sort index = map (\<lambda>p. index ! nat p) r"
    using slots_mset [OF len sl] slots_sorted [OF v len sl] by (rule properties_for_sort)
  moreover have "index ! nat (r ! p) = - 1 \<longleftrightarrow> p < length (filter (\<lambda>x. x = - 1) index)"
    if "p < length index" for p
  proof -
    from slot_surj [OF that] obtain j where j: "j < length index" "slot index j = p" by auto
    then have "r ! p = int j" using sl by auto
    then show ?thesis using slots_missing_first [OF v j(1)] j(2) by simp
  qed
  ultimately show ?thesis
    using r len slots_perm [OF len sl] by auto
qed

theorem groupsort_indexer_permutation_witness:
  "groupsort_indexer [1, - 1, 0, 1, - 1, 0] 2 = Inr [1, 4, 2, 5, 0, 3] \<and>
   map (\<lambda>p. [1, - 1, 0, 1, - 1, 0] ! nat p) [1, 4, 2, 5, 0, 3] = sort [1, - 1, 0, 1, - 1, 0 :: int] \<and>
   distinct [1, 4, 2, 5, 0, 3 :: int]"
proof -
  have ev: "groupsort_indexer [1, - 1, 0, 1, - 1, 0] 2 = Inr [1, 4, 2, 5, 0, 3]"
    by code_simp
  have "\<forall>x \<in> set [1, - 1, 0, 1, - 1, 0 :: int]. - 1 \<le> x \<and> x < 2"
    and "- 1 \<le> (2::int)" and "length [1, - 1, 0, 1, - 1, 0 :: int] < 2 ^ 31"
    by simp_all
  from groupsort_indexer_permutation [OF this] obtain r where
    "groupsort_indexer [1, - 1, 0, 1, - 1, 0] 2 = Inr r" and "distinct r"
    and "map (\<lambda>p. [1, - 1, 0, 1, - 1, 0] ! nat p) r = sort [1, - 1, 0, 1, - 1, 0 :: int]"
    by blast
  then show ?thesis using ev by simp
qed

text \<open>
  C9. \<open>groupsort_indexer\<close> is stable: two positions \<open>i < j\<close> with the same label (the
  label \<open>-1\<close> included) appear in that order in the returned array.
\<close>

theorem groupsort_indexer_stable:
  assumes "\<forall>x \<in> set index. - 1 \<le> x \<and> x < ngroups" and "- 1 \<le> ngroups"
    and "length index < 2 ^ 31"
    and "i < j" and "j < length index" and "index ! i = index ! j"
  shows "\<exists>r p q. groupsort_indexer index ngroups = Inr r \<and>
           p < q \<and> q < length r \<and> r ! p = int i \<and> r ! q = int j"
proof -
  have v: "valid_labels index ngroups" using assms(1) by (simp add: valid_labels_def)
  from groupsort_slots [OF v assms(3,2)] obtain r where
    r: "groupsort_indexer index ngroups = Inr r"
    and len: "length r = length index"
    and sl: "\<forall>j<length index. r ! slot index j = int j"
    by auto
  have "bucket index i = bucket index j" using assms(6) by (simp add: bucket_def)
  with assms(4) have "slot index i < slot index j" by (rule slot_same_bucket)
  moreover have "slot index j < length r" using assms(5) len by (simp add: slot_bound)
  moreover have "r ! slot index i = int i" and "r ! slot index j = int j"
    using sl assms(4,5) by auto
  ultimately show ?thesis using r by blast
qed

theorem groupsort_indexer_stable_witness:
  "groupsort_indexer [1, - 1, 0, 1, - 1, 0] 2 = Inr [1, 4, 2, 5, 0, 3] \<and>
   (\<exists>p q. p < q \<and> q < length [1, 4, 2, 5, 0, 3 :: int] \<and>
      [1, 4, 2, 5, 0, 3 :: int] ! p = int 1 \<and> [1, 4, 2, 5, 0, 3 :: int] ! q = int 4)"
proof -
  have ev: "groupsort_indexer [1, - 1, 0, 1, - 1, 0] 2 = Inr [1, 4, 2, 5, 0, 3]"
    by code_simp
  have "\<forall>x \<in> set [1, - 1, 0, 1, - 1, 0 :: int]. - 1 \<le> x \<and> x < 2"
    and "- 1 \<le> (2::int)" and "length [1, - 1, 0, 1, - 1, 0 :: int] < 2 ^ 31"
    and "(1::nat) < 4" and "4 < length [1, - 1, 0, 1, - 1, 0 :: int]"
    and "[1, - 1, 0, 1, - 1, 0 :: int] ! 1 = [1, - 1, 0, 1, - 1, 0] ! 4"
    by simp_all
  from groupsort_indexer_stable [OF this] obtain r p q where
    "groupsort_indexer [1, - 1, 0, 1, - 1, 0] 2 = Inr r"
    and "p < q" "q < length r" "r ! p = int 1" "r ! q = int 4"
    by blast
  then show ?thesis using ev by auto
qed



section \<open>Factorizer: the loop invariant of group_labels and its counts\<close>

lemma py_ne_self: "py_ne v v \<longleftrightarrow> v = Missing"
  by (cases v) auto

lemma firsts_Nil: "firsts [] = []"
  by (simp add: firsts_def)

lemma firsts_snoc:
  "firsts (vs @ [v]) = (if py_ne v v \<or> v \<in> set (firsts vs) then firsts vs else firsts vs @ [v])"
  by (simp add: firsts_def)

lemma set_firsts: "set (firsts vs) = {v \<in> set vs. \<not> py_ne v v}"
  by (induction vs rule: rev_induct) (auto simp: firsts_Nil firsts_snoc)

lemma distinct_firsts: "distinct (firsts vs)"
  by (induction vs rule: rev_induct) (auto simp: firsts_Nil firsts_snoc)

lemma length_firsts_le: "length (firsts vs) \<le> length vs"
  by (induction vs rule: rev_induct) (auto simp: firsts_Nil firsts_snoc)

lemma length_firsts_card: "length (firsts vs) = card {v \<in> set vs. \<not> py_ne v v}"
  using distinct_card [OF distinct_firsts, of vs] by (simp add: set_firsts)

lemma firsts_take_Suc:
  assumes "i < length values"
  shows "firsts (take (Suc i) values) =
           (if py_ne (values ! i) (values ! i) \<or> values ! i \<in> set (firsts (take i values))
            then firsts (take i values) else firsts (take i values) @ [values ! i])"
  using assms by (simp add: take_Suc_conv_app_nth firsts_snoc)

lemma take_Suc_update:
  "i < length xs \<Longrightarrow> take (Suc i) (xs[i := v]) = take i xs @ [v]"
  by (simp add: take_Suc_conv_app_nth)

lemma gl_step:
  assumes inv: "gl_inv values i st" and i: "i < length values" and n: "length values < 2 ^ 31"
  shows "\<exists>st'. group_labels_step values i st = Inr st' \<and> gl_inv values (Suc i) st'"
proof -
  obtain ids reverse labels counts cnt where st: "st = (ids, reverse, labels, counts, cnt)"
    by (cases st) auto
  define U where "U = firsts (take i values)"
  define val where "val = values ! i"
  from inv have cnt: "cnt = int (length U)"
    and ll: "length labels = length values" and lc: "length counts = length values"
    and dom: "dom ids = set U"
    and tab: "\<And>j. j < length U \<Longrightarrow> ids (U ! j) = Some (int j) \<and> reverse (int j) = Some (U ! j)"
    and lab: "\<And>j. j < i \<Longrightarrow> labels ! j =
            (if py_ne (values ! j) (values ! j) then - 1 else the (ids (values ! j)))"
    and fst: "\<And>j. j < i \<Longrightarrow> \<not> py_ne (values ! j) (values ! j) \<Longrightarrow> values ! j \<notin> set (take j values) \<Longrightarrow>
            labels ! j = int (length (firsts (take j values)))"
    and cts: "\<And>g. g < length U \<Longrightarrow> counts ! g = int (length (filter (\<lambda>l. l = int g) (take i labels)))"
    by (auto simp: gl_inv_def st U_def Let_def)
  have lenU: "length U \<le> i"
    using length_firsts_le [of "take i values"] i by (simp add: U_def)
  have setU: "set U = {v \<in> set (take i values). \<not> py_ne v v}"
    by (simp add: U_def set_firsts)
  have seenU: "values ! j \<in> set U" if "j < i" "\<not> py_ne (values ! j) (values ! j)" for j
  proof -
    have "values ! j = take i values ! j" using that by simp
    moreover have "j < length (take i values)" using that i by simp
    ultimately have "values ! j \<in> set (take i values)" by (metis nth_mem)
    then show ?thesis using that(2) by (simp add: setU)
  qed
  have labrange: "labels ! j = - 1 \<or> (\<exists>k<length U. labels ! j = int k)" if "j < i" for j
  proof (cases "py_ne (values ! j) (values ! j)")
    case True
    then show ?thesis using lab [OF that] by simp
  next
    case False
    from seenU [OF that False] obtain k where k: "k < length U" "U ! k = values ! j"
      by (auto simp: in_set_conv_nth)
    then have "labels ! j = int k" using lab [OF that] False tab [OF k(1)] by simp
    then show ?thesis using k(1) by auto
  qed
  show ?thesis
  proof (cases "py_ne val val")
    case True
    define st' where "st' = (ids, reverse, labels[i := - 1], counts, cnt)"
    have step: "group_labels_step values i st = Inr st'"
      using True by (simp add: group_labels_step_def st st'_def val_def [symmetric])
    have U': "firsts (take (Suc i) values) = U"
      using True firsts_take_Suc [OF i] by (simp add: U_def val_def)
    have "gl_inv values (Suc i) st'"
      unfolding gl_inv_def st'_def
      using cnt ll lc dom tab lab fst cts True i
      by (auto simp: U' Let_def less_Suc_eq nth_list_update take_Suc_update val_def)
    then show ?thesis using step by blast
  next
    case nonmiss: False
    show ?thesis
    proof (cases "ids val")
      case (Some idx)
      then have "val \<in> set U" using dom by auto
      then obtain k where k: "k < length U" "U ! k = val" by (auto simp: in_set_conv_nth)
      then have idx: "idx = int k" using tab [OF k(1)] Some by simp
      define st' where "st' = (ids, reverse, labels[i := int k],
                            counts[k := int32 (counts ! k + 1)], cnt)"
      have kn: "k < length counts" using k(1) lenU i lc by simp
      have step: "group_labels_step values i st = Inr st'"
        using nonmiss Some kn
        by (simp add: group_labels_step_def st st'_def val_def [symmetric] idx)
      have U': "firsts (take (Suc i) values) = U"
        using \<open>val \<in> set U\<close> firsts_take_Suc [OF i] by (simp add: U_def val_def)
      have "counts ! k \<le> int i"
        using cts [OF k(1)] length_filter_le [of "\<lambda>l. l = int k" "take i labels"] i ll by simp
      moreover have "0 \<le> counts ! k" using cts [OF k(1)] by simp
      ultimately have small: "int32 (counts ! k + 1) = counts ! k + 1"
        using i n by (intro int32_id) auto
      have inset: "val \<in> set (take i values)" using \<open>val \<in> set U\<close> setU by simp
      have "gl_inv values (Suc i) st'"
        unfolding gl_inv_def st'_def
        using cnt ll lc dom tab lab fst cts nonmiss i Some idx kn small inset
        by (auto simp: U' Let_def less_Suc_eq nth_list_update take_Suc_update val_def)
      then show ?thesis using step by blast
    next
      case None
      then have notin: "val \<notin> set U" using dom by auto
      define st' where "st' = (ids(val \<mapsto> cnt), reverse(cnt \<mapsto> val), labels[i := cnt],
                            counts[length U := 1], int32 (cnt + 1))"
      have kn: "length U < length counts" using lenU i lc by simp
      have step: "group_labels_step values i st = Inr st'"
        using nonmiss None kn cnt
        by (simp add: group_labels_step_def st st'_def val_def [symmetric])
      have U': "firsts (take (Suc i) values) = U @ [val]"
        using notin nonmiss firsts_take_Suc [OF i] by (simp add: U_def val_def)
      have small: "int32 (cnt + 1) = int (length U + 1)"
        using lenU i n int32_nat [of "length U + 1"] by (simp add: cnt ac_simps)
      have nocnt: "filter (\<lambda>l. l = cnt) (take i labels) = []"
      proof -
        have "l \<noteq> cnt" if "l \<in> set (take i labels)" for l
        proof -
          from that obtain j where "j < i" "labels ! j = l"
            using i ll by (auto simp: in_set_conv_nth)
          then show ?thesis using labrange [of j] cnt by auto
        qed
        then show ?thesis by (auto simp: filter_empty_conv)
      qed
      have notin_take: "val \<notin> set (take i values)" using notin nonmiss setU by simp
      have old_ne: "values ! j \<noteq> val" if "j < i" "\<not> py_ne (values ! j) (values ! j)" for j
        using seenU [OF that] notin by auto
      have Une: "U ! j \<noteq> val" if "j < length U" for j
        using notin that nth_mem by fastforce
      have "gl_inv values (Suc i) st'"
        unfolding gl_inv_def st'_def
        using cnt ll lc dom tab lab fst cts nonmiss i None kn small nocnt old_ne Une
        by (auto simp: U' Let_def less_Suc_eq nth_list_update take_Suc_update val_def nth_append
              U_def [symmetric])
      then show ?thesis using step by blast
    qed
  qed
qed

lemma gl_pass:
  assumes "length values < 2 ^ 31" and "i \<le> length values"
  shows "\<exists>st. foldE (group_labels_step values) [0..<i]
              (Map.empty, Map.empty, np_empty (length values), np_empty (length values), 0) = Inr st
            \<and> gl_inv values i st"
  using assms(2)
proof (induction i)
  case 0
  show ?case by (simp add: gl_inv_def firsts_Nil np_empty_def)
next
  case (Suc i)
  then obtain st where
    run: "foldE (group_labels_step values) [0..<i]
              (Map.empty, Map.empty, np_empty (length values), np_empty (length values), 0) = Inr st"
    and inv: "gl_inv values i st" by auto
  from Suc.prems have "i < length values" by simp
  from gl_step [OF inv this assms(1)] obtain st' where
    "group_labels_step values i st = Inr st'" and "gl_inv values (Suc i) st'" by blast
  then show ?case using run by (simp add: foldE_append)
qed

lemma length_filter_nth:
  "length (filter P xs) = length (filter (\<lambda>j. P (xs ! j)) [0..<length xs])"
proof -
  have "filter P (map (nth xs) [0..<length xs]) = map (nth xs) (filter (P \<circ> nth xs) [0..<length xs])"
    by (rule filter_map)
  then have "length (filter P xs) = length (filter (P \<circ> nth xs) [0..<length xs])"
    by (simp add: map_nth)
  then show ?thesis by (simp add: comp_def)
qed

lemma length_filter_cong_nth:
  assumes "length xs = length ys" and "\<And>j. j < length xs \<Longrightarrow> P (xs ! j) = Q (ys ! j)"
  shows "length (filter P xs) = length (filter Q ys)"
proof -
  have "filter (\<lambda>j. P (xs ! j)) [0..<length xs] = filter (\<lambda>j. Q (ys ! j)) [0..<length xs]"
    using assms(2) by (intro filter_cong) auto
  then show ?thesis
    using length_filter_nth [of P xs] length_filter_nth [of Q ys] assms(1) by simp
qed

lemma sum_filter_groups:
  "(\<Sum>g\<leftarrow>[0..<c]. int (length (filter (\<lambda>l. l = int g) ls)))
     = int (length (filter (\<lambda>l. 0 \<le> l \<and> l < int c) ls))"
proof (induction c)
  case 0
  show ?case by simp
next
  case (Suc c)
  have "length (filter (\<lambda>l. 0 \<le> l \<and> l < int (Suc c)) ls)
          = length (filter (\<lambda>l. 0 \<le> l \<and> l < int c) ls) + length (filter (\<lambda>l. l = int c) ls)"
    by (induction ls) auto
  then show ?case using Suc by simp
qed

text \<open>What the invariant says about the value returned by \<open>group_labels\<close>.\<close>

lemma group_labels_result:
  assumes "length values < 2 ^ 31"
  shows "\<exists>ids reverse labels counts.
           group_labels values = Inr (reverse, labels, take (length (firsts values)) counts) \<and>
           gl_inv values (length values) (ids, reverse, labels, counts, int (length (firsts values)))"
proof -
  from gl_pass [OF assms order_refl] obtain st where
    run: "foldE (group_labels_step values) [0..<length values]
              (Map.empty, Map.empty, np_empty (length values), np_empty (length values), 0) = Inr st"
    and inv: "gl_inv values (length values) st" by blast
  obtain ids reverse labels counts cnt where st: "st = (ids, reverse, labels, counts, cnt)"
    by (cases st) auto
  have cnt: "cnt = int (length (firsts values))"
    using inv by (simp add: gl_inv_def st Let_def)
  have "group_labels values = Inr (reverse, labels, take (length (firsts values)) counts)"
    using run by (simp add: group_labels_def st cnt slice_to_def)
  then show ?thesis using inv st cnt by blast
qed

lemma first_label_mono:
  assumes "i < j" and "j < length values" and "\<not> py_ne (values ! i) (values ! i)"
    and "values ! i \<notin> set (take i values)"
  shows "card {v \<in> set (take i values). \<not> py_ne v v} < card {v \<in> set (take j values). \<not> py_ne v v}"
proof (rule psubset_card_mono)
  show "finite {v \<in> set (take j values). \<not> py_ne v v}" by simp
  have "take i values = take i (take j values)" using assms(1) by (simp add: min_def)
  then have sub: "set (take i values) \<subseteq> set (take j values)"
    by (metis set_take_subset)
  have "values ! i = take j values ! i" using assms(1) by simp
  moreover have "i < length (take j values)" using assms(1,2) by simp
  ultimately have "values ! i \<in> set (take j values)" by (metis nth_mem)
  then show "{v \<in> set (take i values). \<not> py_ne v v} \<subset> {v \<in> set (take j values). \<not> py_ne v v}"
    using sub assms(3,4) by auto
qed

lemma gl_inv_labels:
  assumes inv: "gl_inv values (length values) (ids, reverse, labels, counts, cnt)"
    and j: "j < length values"
  shows "py_ne (values ! j) (values ! j) \<Longrightarrow> labels ! j = - 1"
    and "\<not> py_ne (values ! j) (values ! j) \<Longrightarrow>
           \<exists>k < length (firsts values). firsts values ! k = values ! j \<and> labels ! j = int k \<and>
              reverse (int k) = Some (values ! j)"
proof -
  let ?U = "firsts values"
  from inv have tab: "\<And>k. k < length ?U \<Longrightarrow> ids (?U ! k) = Some (int k) \<and> reverse (int k) = Some (?U ! k)"
    and lab: "\<And>j. j < length values \<Longrightarrow> labels ! j =
            (if py_ne (values ! j) (values ! j) then - 1 else the (ids (values ! j)))"
    by (auto simp: gl_inv_def Let_def)
  show "py_ne (values ! j) (values ! j) \<Longrightarrow> labels ! j = - 1"
    using lab [OF j] by simp
  assume nm: "\<not> py_ne (values ! j) (values ! j)"
  have "values ! j \<in> set ?U" using j nm by (simp add: set_firsts)
  then obtain k where k: "k < length ?U" "?U ! k = values ! j" by (auto simp: in_set_conv_nth)
  then have "labels ! j = int k" using lab [OF j] nm tab [OF k(1)] by simp
  then show "\<exists>k < length ?U. ?U ! k = values ! j \<and> labels ! j = int k \<and>
              reverse (int k) = Some (values ! j)"
    using k tab [OF k(1)] by auto
qed

text \<open>
  C7. The \<open>counts\<close> array returned by \<open>group_labels\<close> has one entry for each distinct
  non-missing key; \<open>counts[g]\<close> is the number of positions labelled \<open>g\<close>, which are the
  positions holding the key \<open>reverse[g]\<close>; and the entries add up to the number of
  non-missing elements. \<open>count\<close> and the arrays are \<open>int32\<close>, so the statement is for inputs
  of fewer than \<open>2^31\<close> elements.
\<close>

theorem group_labels_counts:
  assumes "length values < 2 ^ 31"
  shows "\<exists>reverse labels counts.
           group_labels values = Inr (reverse, labels, counts) \<and>
           length counts = card {v \<in> set values. \<not> py_ne v v} \<and>
           (\<forall>g < length counts.
              counts ! g = int (length (filter (\<lambda>l. l = int g) labels)) \<and>
              (\<exists>k. reverse (int g) = Some k \<and>
                   counts ! g = int (length (filter (\<lambda>v. v = k) values)))) \<and>
           sum_list counts = int (length (filter (\<lambda>v. \<not> py_ne v v) values))"
proof -
  let ?U = "firsts values"
  from group_labels_result [OF assms] obtain ids reverse labels counts where
    res: "group_labels values = Inr (reverse, labels, take (length ?U) counts)"
    and inv: "gl_inv values (length values) (ids, reverse, labels, counts, int (length ?U))"
    by blast
  from inv have ll: "length labels = length values" and lc: "length counts = length values"
    and tab: "\<And>k. k < length ?U \<Longrightarrow> reverse (int k) = Some (?U ! k)"
    and cts: "\<And>g. g < length ?U \<Longrightarrow> counts ! g = int (length (filter (\<lambda>l. l = int g) labels))"
    by (auto simp: gl_inv_def Let_def)
  note labs = gl_inv_labels [OF inv]
  have lenU: "length ?U \<le> length values" by (rule length_firsts_le)
  have len: "length (take (length ?U) counts) = card {v \<in> set values. \<not> py_ne v v}"
    using lenU lc by (simp add: length_firsts_card)
  have occ: "length (filter (\<lambda>l. l = int g) labels) = length (filter (\<lambda>v. v = ?U ! g) values)"
    if g: "g < length ?U" for g
  proof (rule length_filter_cong_nth)
    show "length labels = length values" by (rule ll)
    fix j assume "j < length labels"
    then have j: "j < length values" using ll by simp
    show "(labels ! j = int g) = (values ! j = ?U ! g)"
    proof (cases "py_ne (values ! j) (values ! j)")
      case True
      moreover have "\<not> py_ne (?U ! g) (?U ! g)"
        using nth_mem [OF g] by (simp add: set_firsts)
      ultimately show ?thesis using labs(1) [OF j] by auto
    next
      case False
      from labs(2) [OF j False] obtain k where
        k: "k < length ?U" "?U ! k = values ! j" "labels ! j = int k" by auto
      have "(k = g) = (?U ! k = ?U ! g)"
        using distinct_firsts [of "values"] k(1) g by (simp add: nth_eq_iff_index_eq)
      then show ?thesis using k by auto
    qed
  qed
  have eq: "take (length ?U) counts
              = map (\<lambda>g. int (length (filter (\<lambda>l. l = int g) labels))) [0..<length ?U]"
    using lenU lc cts by (intro nth_equalityI) auto
  have "length (filter (\<lambda>l. 0 \<le> l \<and> l < int (length ?U)) labels)
          = length (filter (\<lambda>v. \<not> py_ne v v) values)"
  proof (rule length_filter_cong_nth)
    show "length labels = length values" by (rule ll)
    fix j assume "j < length labels"
    then have j: "j < length values" using ll by simp
    show "(0 \<le> labels ! j \<and> labels ! j < int (length ?U)) = (\<not> py_ne (values ! j) (values ! j))"
      using labs(1) [OF j] labs(2) [OF j] by (cases "py_ne (values ! j) (values ! j)") auto
  qed
  then have total: "sum_list (take (length ?U) counts) = int (length (filter (\<lambda>v. \<not> py_ne v v) values))"
    unfolding eq using sum_filter_groups [where c = "length ?U" and ls = labels] by simp
  have "\<forall>g < length (take (length ?U) counts).
              take (length ?U) counts ! g = int (length (filter (\<lambda>l. l = int g) labels)) \<and>
              (\<exists>k. reverse (int g) = Some k \<and>
                   take (length ?U) counts ! g = int (length (filter (\<lambda>v. v = k) values)))"
    using cts tab occ by auto
  then show ?thesis using res len total by blast
qed

theorem group_labels_counts_witness:
  "group_labels [Key ''a'', Key ''b'', Missing, Key ''a'', Key ''c'', Key ''b'', Key ''a'']
     = Inr ([0 \<mapsto> Key ''a'', 1 \<mapsto> Key ''b'', 2 \<mapsto> Key ''c''], [0, 1, - 1, 0, 2, 1, 0], [3, 2, 1]) \<and>
   sum_list [3, 2, 1 :: int]
     = int (length (filter (\<lambda>v. \<not> py_ne v v)
         [Key ''a'', Key ''b'', Missing, Key ''a'', Key ''c'', Key ''b'', Key ''a'']))"
proof -
  let ?vs = "[Key ''a'', Key ''b'', Missing, Key ''a'', Key ''c'', Key ''b'', Key ''a'']"
  have ev: "group_labels ?vs
     = Inr ([0 \<mapsto> Key ''a'', 1 \<mapsto> Key ''b'', 2 \<mapsto> Key ''c''], [0, 1, - 1, 0, 2, 1, 0], [3, 2, 1])"
    by (simp add: group_labels_def group_labels_step_def np_empty_def slice_to_def upt_rec
          int32_def Let_def)
  have "length ?vs < 2 ^ 31" by simp
  from group_labels_counts [OF this] obtain reverse labels counts where
    "group_labels ?vs = Inr (reverse, labels, counts)"
    "sum_list counts = int (length (filter (\<lambda>v. \<not> py_ne v v) ?vs))"
    by blast
  then show ?thesis using ev by simp
qed



section \<open>HashTable: lookups\<close>

lemma probe_seq_range: "b \<in> set (probe_seq h n) \<Longrightarrow> b < n"
  by (auto simp: probe_seq_def)

lemma kh_get_probe_absent:
  assumes "absent eq t key" and "\<forall>b \<in> set bs. b < n_buckets t"
  shows "kh_get_probe eq t key bs = n_buckets t"
  using assms(2)
proof (induction bs)
  case Nil
  show ?case by simp
next
  case (Cons b bs)
  then have "b < n_buckets t" by simp
  then have "flags t ! b = Bucket_Occupied \<Longrightarrow> \<not> eq (keys t ! b) key"
    using assms(1) by (simp add: absent_def)
  then show ?case using Cons by (cases "flags t ! b") auto
qed

lemma kh_get_probe_found:
  assumes "kh_get_probe eq t key bs \<noteq> n_buckets t"
  shows "kh_get_probe eq t key bs \<in> set bs \<and>
         flags t ! kh_get_probe eq t key bs = Bucket_Occupied \<and>
         eq (keys t ! kh_get_probe eq t key bs) key"
  using assms
proof (induction bs)
  case Nil
  then show ?case by simp
next
  case (Cons b bs)
  then show ?case by (cases "flags t ! b") (auto split: if_splits)
qed

lemma kh_get_absent: "absent eq t key \<Longrightarrow> kh_get hash eq t key = n_buckets t"
  unfolding kh_get_def by (rule kh_get_probe_absent) (auto dest: probe_seq_range)

lemma kh_get_found:
  assumes "kh_get hash eq t key \<noteq> n_buckets t"
  shows "kh_get hash eq t key < n_buckets t"
    and "flags t ! kh_get hash eq t key = Bucket_Occupied"
    and "eq (keys t ! kh_get hash eq t key) key"
  using kh_get_probe_found [of eq t key "probe_seq (hash key) (n_buckets t)"] assms
  by (auto simp: kh_get_def dest: probe_seq_range)

lemma fold_update_upt:
  assumes "m \<le> length xs"
  shows "fold (\<lambda>i locs. locs[i := f i]) [0..<m] xs = map f [0..<m] @ drop m xs"
  using assms
proof (induction m)
  case 0
  show ?case by simp
next
  case (Suc m)
  then have m: "m < length xs" by simp
  have "(map f [0..<m] @ drop m xs)[m := f m] = map f [0..<m] @ (drop m xs)[0 := f m]"
    by (simp add: list_update_append)
  also have "(drop m xs)[0 := f m] = f m # drop (Suc m) xs"
    using m by (simp add: Cons_nth_drop_Suc [symmetric])
  finally show ?case using Suc by simp
qed

lemma lookup_locations_eq:
  "lookup_locations hash eq t values = (map (lookup_location hash eq t) values, t)"
proof -
  have "fold (\<lambda>i locs. locs[i := lookup_location hash eq t (values ! i)]) [0..<length values]
          (np_empty (length values))
        = map (\<lambda>i. lookup_location hash eq t (values ! i)) [0..<length values]"
    using fold_update_upt [of "length values" "np_empty (length values)"
        "\<lambda>i. lookup_location hash eq t (values ! i)"]
    by (simp add: np_empty_def)
  also have "\<dots> = map (lookup_location hash eq t) (map (nth values) [0..<length values])"
    by (simp add: comp_def)
  finally show ?thesis by (simp add: lookup_locations_def map_nth)
qed

text \<open>A key stored by \<open>set_item\<close> is found by the next \<open>get_item\<close>.\<close>

lemma kh_put_probe_cases:
  "kh_put_probe eq t key bs = (b, ret) \<Longrightarrow>
     (b = n_buckets t \<and> ret = 0 \<and> (\<forall>x \<in> set bs. flags t ! x = Bucket_Occupied \<and> \<not> eq (keys t ! x) key)) \<or>
     (\<exists>pre post. bs = pre @ b # post \<and>
        (\<forall>x \<in> set pre. flags t ! x = Bucket_Occupied \<and> \<not> eq (keys t ! x) key) \<and>
        (ret = 0 \<and> flags t ! b = Bucket_Occupied \<and> eq (keys t ! b) key \<or>
         ret = 1 \<and> flags t ! b = Bucket_Empty \<or>
         ret = 2 \<and> flags t ! b = Bucket_Deleted))"
proof (induction bs)
  case Nil
  then show ?case by auto
next
  case (Cons a bs)
  show ?case
  proof (cases "flags t ! a = Bucket_Occupied \<and> \<not> eq (keys t ! a) key")
    case True
    then have "kh_put_probe eq t key bs = (b, ret)" using Cons.prems by simp
    from Cons.IH [OF this] consider
      (full) "b = n_buckets t" "ret = 0"
        "\<forall>x \<in> set bs. flags t ! x = Bucket_Occupied \<and> \<not> eq (keys t ! x) key"
      | (slot) pre post where "bs = pre @ b # post"
        "\<forall>x \<in> set pre. flags t ! x = Bucket_Occupied \<and> \<not> eq (keys t ! x) key"
        "ret = 0 \<and> flags t ! b = Bucket_Occupied \<and> eq (keys t ! b) key \<or>
         ret = 1 \<and> flags t ! b = Bucket_Empty \<or>
         ret = 2 \<and> flags t ! b = Bucket_Deleted"
      by blast
    then show ?thesis
    proof cases
      case full
      then show ?thesis using True by auto
    next
      case slot
      then have "a # bs = (a # pre) @ b # post \<and>
        (\<forall>x \<in> set (a # pre). flags t ! x = Bucket_Occupied \<and> \<not> eq (keys t ! x) key) \<and>
        (ret = 0 \<and> flags t ! b = Bucket_Occupied \<and> eq (keys t ! b) key \<or>
         ret = 1 \<and> flags t ! b = Bucket_Empty \<or>
         ret = 2 \<and> flags t ! b = Bucket_Deleted)"
        using True by auto
      then show ?thesis by blast
    qed
  next
    case False
    then have "a = b \<and> (ret = 0 \<and> flags t ! b = Bucket_Occupied \<and> eq (keys t ! b) key \<or>
         ret = 1 \<and> flags t ! b = Bucket_Empty \<or>
         ret = 2 \<and> flags t ! b = Bucket_Deleted)"
      using Cons.prems by (cases "flags t ! a") (auto split: if_splits)
    then have "a # bs = [] @ b # bs \<and>
        (\<forall>x \<in> set []. flags t ! x = Bucket_Occupied \<and> \<not> eq (keys t ! x) key) \<and>
        (ret = 0 \<and> flags t ! b = Bucket_Occupied \<and> eq (keys t ! b) key \<or>
         ret = 1 \<and> flags t ! b = Bucket_Empty \<or>
         ret = 2 \<and> flags t ! b = Bucket_Deleted)"
      by auto
    then show ?thesis by blast
  qed
qed

lemma kh_get_probe_skip:
  assumes "\<forall>x \<in> set pre. flags t ! x = Bucket_Occupied \<and> \<not> eq (keys t ! x) key"
    and "flags t ! b = Bucket_Occupied" and "eq (keys t ! b) key"
  shows "kh_get_probe eq t key (pre @ b # post) = b"
  using assms by (induction pre) auto

lemma get_after_set:
  assumes "kh_sized t" and "eq key key" and "set_item hash eq t key v = (Inr (), t')"
  shows "get_item hash eq t' key = (Inr (v mod 2 ^ 64), t')"
proof -
  let ?bs = "probe_seq (hash key) (n_buckets t)"
  obtain b ret where pp: "kh_put_probe eq t key ?bs = (b, ret)" by (cases "kh_put_probe eq t key ?bs")
  define t1 where "t1 = (if ret = 0 then t
       else t\<lparr>flags := (flags t)[b := Bucket_Occupied], keys := (keys t)[b := key],
                n_live := n_live t + 1, n_occupied := n_occupied t + (if ret = 1 then 1 else 0)\<rparr>)"
  have put: "kh_put hash eq t key = (b, ret, t1)"
    by (simp add: kh_put_def pp t1_def)
  from assms(3) have ex: "kh_exist t1 b" and t': "t' = t1\<lparr>vals := (vals t1)[b := word_of_int v]\<rparr>"
    by (auto simp: set_item_def put split: if_splits)
  have nb: "n_buckets t1 = n_buckets t" by (simp add: t1_def)
  have b: "b < n_buckets t" using ex nb by (simp add: kh_exist_def)
  from kh_put_probe_cases [OF pp] b obtain pre post where
    bs: "?bs = pre @ b # post"
    and pre: "\<forall>x \<in> set pre. flags t ! x = Bucket_Occupied \<and> \<not> eq (keys t ! x) key"
    and at: "ret = 0 \<and> flags t ! b = Bucket_Occupied \<and> eq (keys t ! b) key \<or>
         ret = 1 \<and> flags t ! b = Bucket_Empty \<or>
         ret = 2 \<and> flags t ! b = Bucket_Deleted"
    by auto
  have sz: "b < length (flags t)" "b < length (keys t)" "b < length (vals t)"
    using assms(1) b by (simp_all add: kh_sized_def)
  have pre_ne: "b \<noteq> x" if "x \<in> set pre" for x
    using pre at that by auto
  have pre': "\<forall>x \<in> set pre. flags t' ! x = Bucket_Occupied \<and> \<not> eq (keys t' ! x) key"
    using pre pre_ne by (auto simp: t' t1_def)
  have fb: "flags t' ! b = Bucket_Occupied" and kb: "eq (keys t' ! b) key"
    using at sz assms(2) by (auto simp: t' t1_def)
  have nb': "n_buckets t' = n_buckets t" by (simp add: t' t1_def)
  have "kh_get hash eq t' key = kh_get_probe eq t' key (pre @ b # post)"
    unfolding kh_get_def nb' bs ..
  also have "\<dots> = b" using pre' fb kb by (rule kh_get_probe_skip)
  finally have "kh_get hash eq t' key = b" .
  moreover have "vals t' ! b = word_of_int v"
    using sz by (auto simp: t' t1_def)
  ultimately show ?thesis using b nb' by (simp add: get_item_def uint_word_of_int)
qed

lemma get_item_absent: "absent eq t key \<Longrightarrow> get_item hash eq t key = (Inl KeyError, t)"
  by (simp add: get_item_def kh_get_absent)

lemma lookup_locations_absent:
  "i < length values \<Longrightarrow> absent eq t (values ! i) \<Longrightarrow>
     fst (lookup_locations hash eq t values) ! i = - 1"
  by (simp add: lookup_locations_eq lookup_location_def kh_get_absent)

lemma get_item_found:
  assumes "get_item hash eq t key = (Inr v, t1)"
  shows "\<exists>b < n_buckets t. flags t ! b = Bucket_Occupied \<and> eq (keys t ! b) key \<and>
           uint (vals t ! b) = v"
proof -
  from assms have ne: "kh_get hash eq t key \<noteq> n_buckets t"
    and v: "uint (vals t ! kh_get hash eq t key) = v"
    by (auto simp: get_item_def Let_def split: if_splits)
  have "kh_get hash eq t key < n_buckets t \<and>
        flags t ! kh_get hash eq t key = Bucket_Occupied \<and>
        eq (keys t ! kh_get hash eq t key) key \<and> uint (vals t ! kh_get hash eq t key) = v"
    using kh_get_found [OF ne] v by (intro conjI)
  then show ?thesis by (intro exI [of _ "kh_get hash eq t key"])
qed

text \<open>Keys that are equal are looked up alike.\<close>

lemma kh_get_probe_cong:
  assumes "\<And>x. eq x key \<longleftrightarrow> eq x key'"
  shows "kh_get_probe eq t key bs = kh_get_probe eq t key' bs"
  using assms by (induction bs) (auto split: flag.splits)

lemma kh_get_cong:
  assumes "key_protocol hash eq" and "eq key' key"
  shows "kh_get hash eq t key = kh_get hash eq t key'"
proof -
  from assms(1) have e: "equivp eq" and hh: "\<And>a b. eq a b \<Longrightarrow> hash a = hash b"
    unfolding key_protocol_def by simp_all
  have h: "hash key = hash key'" using hh [OF assms(2)] by simp
  have "eq x key \<longleftrightarrow> eq x key'" for x
  proof
    assume "eq x key"
    moreover have "eq key key'" using e assms(2) by (rule equivp_symp)
    ultimately show "eq x key'" using e by (meson equivp_transp)
  next
    assume "eq x key'"
    then show "eq x key" using e assms(2) by (meson equivp_transp)
  qed
  then show ?thesis
    unfolding kh_get_def h by (rule kh_get_probe_cong)
qed

text \<open>A key present in a well-formed table is found, in the bucket that holds it.\<close>

lemma kh_get_present:
  assumes "key_protocol hash eq" and "kh_wf hash eq t"
    and "b < n_buckets t" and "flags t ! b = Bucket_Occupied" and "eq (keys t ! b) key"
  shows "kh_get hash eq t key = b"
proof -
  have "kh_get hash eq t (keys t ! b) = b"
    using assms(2,3,4) by (simp add: kh_wf_def)
  then show ?thesis using kh_get_cong [OF assms(1,5), of t] by simp
qed

lemma get_item_present:
  assumes "key_protocol hash eq" and "kh_wf hash eq t"
    and "b < n_buckets t" and "flags t ! b = Bucket_Occupied" and "eq (keys t ! b) key"
  shows "get_item hash eq t key = (Inr (uint (vals t ! b)), t)"
  using kh_get_present [OF assms] assms(3) by (simp add: get_item_def)

lemma kh_wf_empty: "kh_wf hash eq (kh_empty n)"
  by (simp add: kh_wf_def kh_sized_def kh_empty_def)

text \<open>Filling an empty bucket does not disturb a probe that ended in another bucket.\<close>

lemma kh_get_probe_fill:
  assumes "kh_get_probe eq t k bs = b" and "b \<noteq> n_buckets t"
    and "flags t ! b' = Bucket_Empty" and "b' < length (flags t)" and "b' < length (keys t)"
    and "n_buckets t' = n_buckets t"
    and "flags t' = (flags t)[b' := Bucket_Occupied]" and "keys t' = (keys t)[b' := key]"
  shows "kh_get_probe eq t' k bs = b"
  using assms(1)
proof (induction bs)
  case Nil
  then show ?case using assms(2) by simp
next
  case (Cons a bs)
  have ne: "a \<noteq> b'"
  proof
    assume "a = b'"
    then have "kh_get_probe eq t k (a # bs) = n_buckets t" using assms(3) by simp
    then show False using Cons.prems assms(2) by simp
  qed
  then have same: "flags t' ! a = flags t ! a" "keys t' ! a = keys t ! a"
    using assms(7,8) by simp_all
  show ?case
  proof (cases "flags t ! a")
    case Bucket_Empty
    then show ?thesis using Cons.prems assms(2) by simp
  next
    case Bucket_Occupied
    then show ?thesis using Cons same assms(6) by (auto split: if_splits)
  next
    case Bucket_Deleted
    then show ?thesis using Cons same assms(6) by auto
  qed
qed

lemma vals_update_get:
  "kh_get hash eq (t\<lparr>vals := vs\<rparr>) k = kh_get hash eq t k"
proof -
  have "kh_get_probe eq (t\<lparr>vals := vs\<rparr>) k bs = kh_get_probe eq t k bs" for bs
    by (induction bs) (auto split: flag.splits)
  then show ?thesis by (simp add: kh_get_def)
qed

lemma vals_update_wf:
  assumes "kh_wf hash eq t" and "length vs = length (vals t)"
  shows "kh_wf hash eq (t\<lparr>vals := vs\<rparr>)"
  using assms by (simp add: kh_wf_def kh_sized_def vals_update_get)

lemma put_new_wf:
  assumes kp: "key_protocol hash eq" and wf: "kh_wf hash eq t"
    and bs: "probe_seq (hash key) (n_buckets t) = pre @ b # post"
    and pre: "\<forall>x \<in> set pre. flags t ! x = Bucket_Occupied \<and> \<not> eq (keys t ! x) key"
    and emp: "flags t ! b = Bucket_Empty"
  shows "kh_wf hash eq (t\<lparr>flags := (flags t)[b := Bucket_Occupied], keys := (keys t)[b := key],
                n_live := n_live t + 1, n_occupied := n_occupied t + 1\<rparr>)"
proof -
  define t' where "t' = t\<lparr>flags := (flags t)[b := Bucket_Occupied], keys := (keys t)[b := key],
                n_live := n_live t + 1, n_occupied := n_occupied t + 1\<rparr>"
  have sized: "kh_sized t" using wf by (simp add: kh_wf_def)
  have nodel: "flags t ! x \<noteq> Bucket_Deleted" if "x < n_buckets t" for x
    using wf that by (simp add: kh_wf_def)
  have found: "kh_get hash eq t (keys t ! x) = x"
    if "x < n_buckets t" "flags t ! x = Bucket_Occupied" for x
    using wf that by (simp add: kh_wf_def)
  have "b \<in> set (probe_seq (hash key) (n_buckets t))" unfolding bs by simp
  then have b: "b < n_buckets t" by (auto simp: probe_seq_def)
  have sz: "b < length (flags t)" "b < length (keys t)"
    using sized b by (simp_all add: kh_sized_def)
  have nb: "n_buckets t' = n_buckets t" by (simp add: t'_def)
  have fl: "flags t' = (flags t)[b := Bucket_Occupied]" and ks: "keys t' = (keys t)[b := key]"
    by (simp_all add: t'_def)
  have eqk: "eq key key" using kp by (simp add: key_protocol_def equivp_reflp)
  have pre_ne: "b \<noteq> x" if "x \<in> set pre" for x
    using pre emp that by auto
  have pre': "\<forall>x \<in> set pre. flags t' ! x = Bucket_Occupied \<and> \<not> eq (keys t' ! x) key"
    using pre pre_ne by (auto simp: fl ks)
  have fb: "flags t' ! b = Bucket_Occupied" and kb: "eq (keys t' ! b) key"
    using sz eqk by (simp_all add: fl ks)
  have "kh_get hash eq t' key = kh_get_probe eq t' key (pre @ b # post)"
    unfolding kh_get_def nb bs ..
  also have "\<dots> = b" using pre' fb kb by (rule kh_get_probe_skip)
  finally have own: "kh_get hash eq t' key = b" .
  have others: "kh_get hash eq t' (keys t ! x) = x"
    if x: "x < n_buckets t" "flags t ! x = Bucket_Occupied" for x
  proof -
    have "kh_get_probe eq t (keys t ! x) (probe_seq (hash (keys t ! x)) (n_buckets t)) = x"
      using found [OF x] by (simp add: kh_get_def)
    moreover have "x \<noteq> n_buckets t" using x(1) by simp
    ultimately have "kh_get_probe eq t' (keys t ! x) (probe_seq (hash (keys t ! x)) (n_buckets t)) = x"
      using emp sz nb fl ks by (rule kh_get_probe_fill)
    then show ?thesis by (simp add: kh_get_def nb)
  qed
  have "kh_sized t'" using sized by (simp add: kh_sized_def t'_def)
  moreover have "flags t' ! x \<noteq> Bucket_Deleted \<and>
         (flags t' ! x = Bucket_Occupied \<longrightarrow> kh_get hash eq t' (keys t' ! x) = x)"
    if "x < n_buckets t'" for x
  proof (cases "x = b")
    case True
    have "keys t' ! b = key" using sz by (simp add: ks)
    then show ?thesis using own fb True by simp
  next
    case False
    then have "flags t' ! x = flags t ! x" "keys t' ! x = keys t ! x"
      by (simp_all add: fl ks)
    then show ?thesis using others [of x] nodel [of x] that nb by simp
  qed
  ultimately show ?thesis unfolding t'_def [symmetric] by (simp add: kh_wf_def)
qed

lemma kh_put_wf:
  assumes kp: "key_protocol hash eq" and wf: "kh_wf hash eq t"
    and put: "kh_put hash eq t key = (b, ret, t')"
  shows "kh_wf hash eq t'"
proof -
  let ?bs = "probe_seq (hash key) (n_buckets t)"
  obtain b0 r0 where pp: "kh_put_probe eq t key ?bs = (b0, r0)"
    by (cases "kh_put_probe eq t key ?bs")
  show ?thesis
  proof (cases "r0 = 0")
    case True
    then have "t' = t" using put by (simp add: kh_put_def pp)
    then show ?thesis using wf by simp
  next
    case False
    from kh_put_probe_cases [OF pp]
    have "\<exists>pre post. ?bs = pre @ b0 # post \<and>
        (\<forall>x \<in> set pre. flags t ! x = Bucket_Occupied \<and> \<not> eq (keys t ! x) key) \<and>
        (r0 = 0 \<and> flags t ! b0 = Bucket_Occupied \<and> eq (keys t ! b0) key \<or>
         r0 = 1 \<and> flags t ! b0 = Bucket_Empty \<or>
         r0 = 2 \<and> flags t ! b0 = Bucket_Deleted)"
    proof (rule disjE)
      assume "b0 = n_buckets t \<and> r0 = 0 \<and>
        (\<forall>x \<in> set ?bs. flags t ! x = Bucket_Occupied \<and> \<not> eq (keys t ! x) key)"
      then show ?thesis using False by simp
    next
      assume "\<exists>pre post. ?bs = pre @ b0 # post \<and>
        (\<forall>x \<in> set pre. flags t ! x = Bucket_Occupied \<and> \<not> eq (keys t ! x) key) \<and>
        (r0 = 0 \<and> flags t ! b0 = Bucket_Occupied \<and> eq (keys t ! b0) key \<or>
         r0 = 1 \<and> flags t ! b0 = Bucket_Empty \<or>
         r0 = 2 \<and> flags t ! b0 = Bucket_Deleted)"
      then show ?thesis .
    qed
    then obtain pre post where
      bs: "?bs = pre @ b0 # post"
      and pre: "\<forall>x \<in> set pre. flags t ! x = Bucket_Occupied \<and> \<not> eq (keys t ! x) key"
      and at0: "r0 = 0 \<and> flags t ! b0 = Bucket_Occupied \<and> eq (keys t ! b0) key \<or>
         r0 = 1 \<and> flags t ! b0 = Bucket_Empty \<or>
         r0 = 2 \<and> flags t ! b0 = Bucket_Deleted"
      by (elim exE conjE)
    from at0 False
    have at: "r0 = 1 \<and> flags t ! b0 = Bucket_Empty \<or> r0 = 2 \<and> flags t ! b0 = Bucket_Deleted"
      by simp
    have "b0 \<in> set ?bs" unfolding bs by simp
    then have "b0 < n_buckets t" by (auto simp: probe_seq_def)
    then have "flags t ! b0 \<noteq> Bucket_Deleted" using wf by (simp add: kh_wf_def)
    then have r1: "r0 = 1" and emp: "flags t ! b0 = Bucket_Empty" using at by auto
    have "t' = t\<lparr>flags := (flags t)[b0 := Bucket_Occupied], keys := (keys t)[b0 := key],
                n_live := n_live t + 1, n_occupied := n_occupied t + 1\<rparr>"
      using put r1 by (auto simp: kh_put_def pp)
    then show ?thesis using put_new_wf [OF kp wf bs pre emp] by simp
  qed
qed

lemma kh_put_length: "kh_put hash eq t key = (b, ret, t') \<Longrightarrow> length (vals t') = length (vals t)"
  by (auto simp: kh_put_def split: prod.splits if_splits)

lemma set_item_wf:
  assumes kp: "key_protocol hash eq" and wf: "kh_wf hash eq t"
    and set: "set_item hash eq t key v = (r, t')"
  shows "kh_wf hash eq t'"
proof -
  obtain b ret t1 where put: "kh_put hash eq t key = (b, ret, t1)"
    by (cases "kh_put hash eq t key") auto
  have wf1: "kh_wf hash eq t1" using kp wf put by (rule kh_put_wf)
  have "t' = t \<or> t' = t1 \<or> t' = t1\<lparr>vals := (vals t1)[b := word_of_int v]\<rparr>"
    using set by (auto simp: set_item_def put split: if_splits)
  then show ?thesis
  proof (elim disjE)
    assume "t' = t" then show ?thesis using wf by simp
  next
    assume "t' = t1" then show ?thesis using wf1 by simp
  next
    assume t': "t' = t1\<lparr>vals := (vals t1)[b := word_of_int v]\<rparr>"
    have "length ((vals t1)[b := word_of_int v]) = length (vals t1)" by simp
    with wf1 show ?thesis unfolding t' by (rule vals_update_wf)
  qed
qed

text \<open>In a well-formed table at most one bucket holds a key equal to a given one.\<close>

lemma kh_wf_unique:
  assumes "key_protocol hash eq" and "kh_wf hash eq t"
    and "b < n_buckets t" and "flags t ! b = Bucket_Occupied" and "eq (keys t ! b) key"
    and "c < n_buckets t" and "flags t ! c = Bucket_Occupied" and "eq (keys t ! c) key"
  shows "b = c"
  using kh_get_present [OF assms(1,2,3,4,5)] kh_get_present [OF assms(1,2,6,7,8)] by simp

lemma set_item_overflow:
  "w < - (2 ^ 63) \<or> 2 ^ 63 \<le> w \<Longrightarrow> set_item hash eq t key w = (Inl OverflowError, t)"
  by (simp add: set_item_def)

text \<open>
  C8. \<open>get_item\<close> on a key absent from the table (no occupied bucket holds an equal key)
  raises \<open>KeyError\<close>, and \<open>lookup_locations\<close> returns one location per key, \<open>-1\<close> for
  every absent key, and has no raising path. When \<open>get_item\<close> returns a value, it is the
  payload of an occupied bucket that holds the key, read as an unsigned number. In a table
  that has been filled by \<open>set_item\<close> from empty buckets (\<open>kh_wf\<close>: the empty table
  satisfies it and \<open>set_item\<close> keeps it), \<open>get_item\<close> on a key that an occupied bucket holds
  returns the payload of that bucket. \<open>set_item\<close> stores the 64 bits of its \<open>Py_ssize_t\<close>
  argument, so the next \<open>get_item\<close> returns the argument modulo \<open>2^64\<close>: itself when it is
  not negative, and \<open>2^64 - 1\<close> for \<open>-1\<close>. Both lookups leave the table as it was.
\<close>

theorem hash_lookup:
  "(absent eq t key \<longrightarrow> get_item hash eq t key = (Inl KeyError, t)) \<and>
   length (fst (lookup_locations hash eq t values)) = length values \<and>
   (\<forall>i < length values.
      absent eq t (values ! i) \<longrightarrow> fst (lookup_locations hash eq t values) ! i = - 1) \<and>
   (get_item hash eq t key = (Inr v, t1) \<longrightarrow>
      (\<exists>b < n_buckets t. flags t ! b = Bucket_Occupied \<and> eq (keys t ! b) key \<and>
         uint (vals t ! b) = v)) \<and>
   (key_protocol hash eq \<and> kh_wf hash eq t \<and>
    b < n_buckets t \<and> flags t ! b = Bucket_Occupied \<and> eq (keys t ! b) key \<longrightarrow>
      get_item hash eq t key = (Inr (uint (vals t ! b)), t)) \<and>
   kh_wf hash eq (kh_empty n) \<and>
   (key_protocol hash eq \<and> kh_wf hash eq t \<and> set_item hash eq t key w = (r, t3) \<longrightarrow>
      kh_wf hash eq t3) \<and>
   (kh_sized t \<and> eq key key \<and> set_item hash eq t key w = (Inr (), t2) \<longrightarrow>
      - (2 ^ 63) \<le> w \<and> w < 2 ^ 63 \<and> get_item hash eq t2 key = (Inr (w mod 2 ^ 64), t2)) \<and>
   snd (get_item hash eq t key) = t \<and>
   snd (lookup_locations hash eq t values) = t"
proof -
  have 1: "absent eq t key \<longrightarrow> get_item hash eq t key = (Inl KeyError, t)"
    by (rule impI) (rule get_item_absent)
  have 2: "length (fst (lookup_locations hash eq t values)) = length values"
    by (simp add: lookup_locations_eq)
  have 3: "\<forall>i < length values.
      absent eq t (values ! i) \<longrightarrow> fst (lookup_locations hash eq t values) ! i = - 1"
    by (intro allI impI) (rule lookup_locations_absent)
  have 4: "get_item hash eq t key = (Inr v, t1) \<longrightarrow>
      (\<exists>b < n_buckets t. flags t ! b = Bucket_Occupied \<and> eq (keys t ! b) key \<and>
         uint (vals t ! b) = v)"
    by (rule impI) (rule get_item_found)
  have 5: "key_protocol hash eq \<and> kh_wf hash eq t \<and>
    b < n_buckets t \<and> flags t ! b = Bucket_Occupied \<and> eq (keys t ! b) key \<longrightarrow>
      get_item hash eq t key = (Inr (uint (vals t ! b)), t)"
  proof
    assume h: "key_protocol hash eq \<and> kh_wf hash eq t \<and>
      b < n_buckets t \<and> flags t ! b = Bucket_Occupied \<and> eq (keys t ! b) key"
    then have "key_protocol hash eq" and "kh_wf hash eq t" and "b < n_buckets t"
      and "flags t ! b = Bucket_Occupied" and "eq (keys t ! b) key"
      by simp_all
    then show "get_item hash eq t key = (Inr (uint (vals t ! b)), t)"
      by (rule get_item_present)
  qed
  have 6: "kh_wf hash eq (kh_empty n)"
    by (rule kh_wf_empty)
  have 7: "key_protocol hash eq \<and> kh_wf hash eq t \<and> set_item hash eq t key w = (r, t3) \<longrightarrow>
      kh_wf hash eq t3"
  proof
    assume h: "key_protocol hash eq \<and> kh_wf hash eq t \<and> set_item hash eq t key w = (r, t3)"
    then have "key_protocol hash eq" and "kh_wf hash eq t"
      and "set_item hash eq t key w = (r, t3)"
      by simp_all
    then show "kh_wf hash eq t3" by (rule set_item_wf)
  qed
  have 8: "kh_sized t \<and> eq key key \<and> set_item hash eq t key w = (Inr (), t2) \<longrightarrow>
      - (2 ^ 63) \<le> w \<and> w < 2 ^ 63 \<and> get_item hash eq t2 key = (Inr (w mod 2 ^ 64), t2)"
  proof
    assume h: "kh_sized t \<and> eq key key \<and> set_item hash eq t key w = (Inr (), t2)"
    from h have a: "kh_sized t" by (rule conjunct1)
    from h have b: "eq key key" by (rule conjunct2 [THEN conjunct1])
    from h have c: "set_item hash eq t key w = (Inr (), t2)" by (rule conjunct2 [THEN conjunct2])
    have "\<not> (w < - (2 ^ 63) \<or> 2 ^ 63 \<le> w)"
    proof
      assume "w < - (2 ^ 63) \<or> 2 ^ 63 \<le> w"
      then have "set_item hash eq t key w = (Inl OverflowError, t)" by (rule set_item_overflow)
      with c show False by simp
    qed
    then have r: "- (2 ^ 63) \<le> w" "w < 2 ^ 63" by simp_all
    from a b c have "get_item hash eq t2 key = (Inr (w mod 2 ^ 64), t2)" by (rule get_after_set)
    with r show "- (2 ^ 63) \<le> w \<and> w < 2 ^ 63 \<and> get_item hash eq t2 key = (Inr (w mod 2 ^ 64), t2)"
      by (intro conjI)
  qed
  have 9: "snd (get_item hash eq t key) = t"
    by (simp add: get_item_def Let_def)
  have 10: "snd (lookup_locations hash eq t values) = t"
    by (simp add: lookup_locations_eq)
  show ?thesis
    apply (intro conjI)
             apply (rule 1)
            apply (rule 2)
           apply (rule 3)
          apply (rule 4)
         apply (rule 5)
        apply (rule 6)
       apply (rule 7)
      apply (rule 8)
     apply (rule 9)
    apply (rule 10)
    done
qed

text \<open>
  Witness for C8: four buckets; the keys 5 and 9 collide on bucket 1, so 9 sits in
  bucket 2; the key 13 probes buckets 1, 2 and 0 and is absent. Storing \<open>-1\<close> under the
  key 9 makes \<open>get_item\<close> return \<open>2^64 - 1\<close>.
\<close>

lemma table_5_9_absent: "absent (=) table_5_9 13"
  by code_simp

lemma table_5_set: "set_item (\<lambda>k. k) (=) table_5 9 20 = (Inr (), table_5_9)"
  by (simp add: table_5_def table_5_9_def set_item_def kh_put_def probe_seq_def kh_exist_def upt_rec)

lemma table_5_9_set:
  "set_item (\<lambda>k. k) (=) table_5_9 9 (- 1) = (Inr (), table_5_9\<lparr>vals := [0, 10, - 1, 0]\<rparr>)"
  by (simp add: table_5_9_def set_item_def kh_put_def probe_seq_def kh_exist_def upt_rec)

lemma table_5_9_locations:
  "fst (lookup_locations (\<lambda>k. k) (=) table_5_9 [9, 13, 5]) = [20, - 1, 10]"
  by (simp add: lookup_locations_eq lookup_location_def kh_get_def probe_seq_def table_5_9_def
        upt_rec int32_def)

lemma nat_key_protocol: "key_protocol (\<lambda>k. k) ((=) :: nat \<Rightarrow> nat \<Rightarrow> bool)"
  by (simp add: key_protocol_def identity_equivp)

lemma table_5_wf: "kh_wf (\<lambda>k. k) (=) table_5"
  by (simp add: kh_wf_def kh_sized_def table_5_def kh_get_def probe_seq_def upt_rec
        atLeastLessThan_upt [of 0 4, simplified] nth_Cons split: nat.splits)

theorem hash_lookup_witness:
  "absent (=) table_5_9 13 \<and>
   get_item (\<lambda>k. k) (=) table_5_9 13 = (Inl KeyError, table_5_9) \<and>
   fst (lookup_locations (\<lambda>k. k) (=) table_5_9 [9, 13, 5]) = [20, - 1, 10] \<and>
   key_protocol (\<lambda>k. k) ((=) :: nat \<Rightarrow> nat \<Rightarrow> bool) \<and>
   kh_wf (\<lambda>k. k) (=) table_5 \<and>
   set_item (\<lambda>k. k) (=) table_5 9 20 = (Inr (), table_5_9) \<and>
   kh_wf (\<lambda>k. k) (=) table_5_9 \<and>
   (2::nat) < n_buckets table_5_9 \<and> flags table_5_9 ! 2 = Bucket_Occupied \<and>
   keys table_5_9 ! 2 = 9 \<and>
   get_item (\<lambda>k. k) (=) table_5_9 9 = (Inr 20, table_5_9) \<and>
   kh_sized table_5_9 \<and>
   set_item (\<lambda>k. k) (=) table_5_9 9 (- 1) = (Inr (), table_5_9\<lparr>vals := [0, 10, - 1, 0]\<rparr>) \<and>
   get_item (\<lambda>k. k) (=) (table_5_9\<lparr>vals := [0, 10, - 1, 0]\<rparr>) 9
     = (Inr 18446744073709551615, table_5_9\<lparr>vals := [0, 10, - 1, 0]\<rparr>)"
proof -
  have g1: "get_item (\<lambda>k. k) (=) table_5_9 13 = (Inl KeyError, table_5_9)"
    using hash_lookup [of "(=)" table_5_9 13 "\<lambda>k. k"] table_5_9_absent by blast
  have wf9: "kh_wf (\<lambda>k. k) (=) table_5_9"
  proof -
    have "key_protocol (\<lambda>k. k) ((=) :: nat \<Rightarrow> nat \<Rightarrow> bool) \<and> kh_wf (\<lambda>k. k) (=) table_5 \<and>
          set_item (\<lambda>k. k) (=) table_5 9 20 = (Inr (), table_5_9)"
      using nat_key_protocol table_5_wf table_5_set by (intro conjI)
    then show ?thesis
      using hash_lookup [where eq = "(=)" and t = table_5 and key = 9 and hash = "\<lambda>k. k"
          and w = 20 and ?t3.0 = table_5_9 and r = "Inr ()"]
      by blast
  qed
  have b2: "(2::nat) < n_buckets table_5_9" and f2: "flags table_5_9 ! 2 = Bucket_Occupied"
    and k2: "keys table_5_9 ! 2 = 9" and v2: "uint (vals table_5_9 ! 2) = 20"
    by (simp_all add: table_5_9_def)
  have g2: "get_item (\<lambda>k. k) (=) table_5_9 9 = (Inr 20, table_5_9)"
  proof -
    have "key_protocol (\<lambda>k. k) ((=) :: nat \<Rightarrow> nat \<Rightarrow> bool) \<and> kh_wf (\<lambda>k. k) (=) table_5_9 \<and>
          (2::nat) < n_buckets table_5_9 \<and> flags table_5_9 ! 2 = Bucket_Occupied \<and>
          keys table_5_9 ! 2 = 9"
      using nat_key_protocol wf9 b2 f2 k2 by (intro conjI)
    then have "get_item (\<lambda>k. k) (=) table_5_9 9 = (Inr (uint (vals table_5_9 ! 2)), table_5_9)"
      using hash_lookup [where eq = "(=)" and t = table_5_9 and key = 9 and hash = "\<lambda>k. k"
          and b = 2]
      by blast
    then show ?thesis unfolding v2 .
  qed
  have z: "kh_sized table_5_9" by (simp add: kh_sized_def table_5_9_def)
  have g3: "get_item (\<lambda>k. k) (=) (table_5_9\<lparr>vals := [0, 10, - 1, 0]\<rparr>) 9
     = (Inr 18446744073709551615, table_5_9\<lparr>vals := [0, 10, - 1, 0]\<rparr>)"
  proof -
    have "kh_sized table_5_9 \<and> (9::nat) = 9 \<and>
        set_item (\<lambda>k. k) (=) table_5_9 9 (- 1) = (Inr (), table_5_9\<lparr>vals := [0, 10, - 1, 0]\<rparr>)"
      using z table_5_9_set by simp
    then have "get_item (\<lambda>k. k) (=) (table_5_9\<lparr>vals := [0, 10, - 1, 0]\<rparr>) 9
       = (Inr ((- 1) mod 2 ^ 64), table_5_9\<lparr>vals := [0, 10, - 1, 0]\<rparr>)"
      using hash_lookup [where eq = "(=)" and t = table_5_9 and key = 9 and hash = "\<lambda>k. k"
          and w = "- 1" and ?t2.0 = "table_5_9\<lparr>vals := [0, 10, - 1, 0]\<rparr>"]
      by blast
    then show ?thesis by simp
  qed
  from table_5_9_absent g1 table_5_9_locations nat_key_protocol table_5_wf table_5_set wf9
    b2 f2 k2 g2 z table_5_9_set g3
  show ?thesis
    by (intro conjI)
qed


section \<open>Factorizer: labels\<close>

text \<open>
  C1, for \<open>group_labels\<close>: on an input of fewer than \<open>2^31\<close> elements, \<open>labels[i]\<close> is
  \<open>-1\<close> exactly when \<open>values[i]\<close> is not equal to itself; otherwise \<open>reverse[labels[i]]\<close> is
  \<open>values[i]\<close>; a key met for the first time at position \<open>i\<close> gets as label the number of
  distinct non-missing keys before \<open>i\<close>, so the labels of first occurrences are \<open>0, 1, 2, ...\<close>
  and strictly increasing in the order of first occurrence.
\<close>

theorem group_labels_factorize:
  assumes "length values < 2 ^ 31"
  shows "\<exists>reverse labels counts.
           group_labels values = Inr (reverse, labels, counts) \<and>
           length labels = length values \<and>
           (\<forall>i < length values.
              (labels ! i = - 1 \<longleftrightarrow> py_ne (values ! i) (values ! i)) \<and>
              (\<not> py_ne (values ! i) (values ! i) \<longrightarrow> reverse (labels ! i) = Some (values ! i)) \<and>
              (\<not> py_ne (values ! i) (values ! i) \<and> values ! i \<notin> set (take i values) \<longrightarrow>
                 labels ! i = int (card {v \<in> set (take i values). \<not> py_ne v v}))) \<and>
           (\<forall>i j. i < j \<and> j < length values \<and>
              \<not> py_ne (values ! i) (values ! i) \<and> values ! i \<notin> set (take i values) \<and>
              \<not> py_ne (values ! j) (values ! j) \<and> values ! j \<notin> set (take j values) \<longrightarrow>
              labels ! i < labels ! j)"
proof -
  let ?U = "firsts values"
  from group_labels_result [OF assms] obtain ids reverse labels counts where
    res: "group_labels values = Inr (reverse, labels, take (length ?U) counts)"
    and inv: "gl_inv values (length values) (ids, reverse, labels, counts, int (length ?U))"
    by blast
  from inv have ll: "length labels = length values"
    and fst: "\<And>j. j < length values \<Longrightarrow> \<not> py_ne (values ! j) (values ! j) \<Longrightarrow>
            values ! j \<notin> set (take j values) \<Longrightarrow>
            labels ! j = int (card {v \<in> set (take j values). \<not> py_ne v v})"
    by (auto simp: gl_inv_def Let_def length_firsts_card)
  note labs = gl_inv_labels [OF inv]
  have a: "(labels ! i = - 1 \<longleftrightarrow> py_ne (values ! i) (values ! i)) \<and>
           (\<not> py_ne (values ! i) (values ! i) \<longrightarrow> reverse (labels ! i) = Some (values ! i)) \<and>
           (\<not> py_ne (values ! i) (values ! i) \<and> values ! i \<notin> set (take i values) \<longrightarrow>
              labels ! i = int (card {v \<in> set (take i values). \<not> py_ne v v}))"
    if i: "i < length values" for i
  proof (cases "py_ne (values ! i) (values ! i)")
    case True
    then show ?thesis using labs(1) [OF i] by simp
  next
    case False
    from labs(2) [OF i False] obtain k where
      "labels ! i = int k" "reverse (int k) = Some (values ! i)" by auto
    then show ?thesis using False fst [OF i] by auto
  qed
  have b: "labels ! i < labels ! j"
    if "i < j \<and> j < length values \<and>
        \<not> py_ne (values ! i) (values ! i) \<and> values ! i \<notin> set (take i values) \<and>
        \<not> py_ne (values ! j) (values ! j) \<and> values ! j \<notin> set (take j values)" for i j
  proof -
    from that have ij: "i < j" "j < length values" "i < length values"
      and fi: "\<not> py_ne (values ! i) (values ! i)" "values ! i \<notin> set (take i values)"
      and fj: "\<not> py_ne (values ! j) (values ! j)" "values ! j \<notin> set (take j values)"
      by auto
    show ?thesis
      using first_label_mono [OF ij(1,2) fi] fst [OF ij(3) fi] fst [OF ij(2) fj] by simp
  qed
  from res ll a b show ?thesis by blast
qed

theorem group_labels_factorize_witness:
  "group_labels [Key ''a'', Key ''b'', Missing, Key ''a'', Key ''c'', Key ''b'', Key ''a'']
     = Inr ([0 \<mapsto> Key ''a'', 1 \<mapsto> Key ''b'', 2 \<mapsto> Key ''c''], [0, 1, - 1, 0, 2, 1, 0], [3, 2, 1]) \<and>
   length [0, 1, - 1, 0, 2, 1, 0 :: int]
     = length [Key ''a'', Key ''b'', Missing, Key ''a'', Key ''c'', Key ''b'', Key ''a'']"
proof -
  let ?vs = "[Key ''a'', Key ''b'', Missing, Key ''a'', Key ''c'', Key ''b'', Key ''a'']"
  have ev: "group_labels ?vs
     = Inr ([0 \<mapsto> Key ''a'', 1 \<mapsto> Key ''b'', 2 \<mapsto> Key ''c''], [0, 1, - 1, 0, 2, 1, 0], [3, 2, 1])"
    by (simp add: group_labels_def group_labels_step_def np_empty_def slice_to_def upt_rec
          int32_def Let_def)
  have "length ?vs < 2 ^ 31" by simp
  from group_labels_factorize [OF this] obtain reverse labels counts where
    "group_labels ?vs = Inr (reverse, labels, counts)" "length labels = length ?vs"
    by blast
  then show ?thesis using ev by simp
qed

text \<open>
  Counterexample for C1 as stated: \<open>PyObjectHashTable.factorize\<close> has no missing test. On
  a table of empty buckets the missing key is not found, is stored, and gets label 0.
\<close>

theorem hash_factorize_missing_counterexample:
  "PyObjectHashTable_factorize pyobj_hash (=) objects_4 [Missing]
     = Inr (\<lparr>n_buckets = 4, n_live = 1, n_occupied = 1,
              flags = [Bucket_Occupied, Bucket_Empty, Bucket_Empty, Bucket_Empty],
              keys = [Missing, Key 0, Key 0, Key 0], vals = [0, 0, 0, 0]\<rparr>,
            [0 \<mapsto> Missing], [0], [1]) \<and>
   py_ne (Missing :: nat pyobj) Missing \<and> [0 :: int] ! 0 \<noteq> - 1"
  by (simp add: PyObjectHashTable_factorize_def factorize_step_def kh_get_def kh_put_def
        probe_seq_def objects_4_def np_empty_def slice_to_def upt_rec int32_def Let_def)



section \<open>\<open>duplicated\<close>: the marks\<close>

lemma py_eq_sym: "py_eq a b \<Longrightarrow> py_eq b a"
  by (cases a; cases b) auto

lemma py_eq_trans: "py_eq a b \<Longrightarrow> py_eq b c \<Longrightarrow> py_eq a c"
  by (cases a; cases b; cases c) auto

lemma py_eq_self: "py_eq a a \<longleftrightarrow> a \<noteq> Missing"
  by (cases a) auto

lemma key_eq_refl: "key_eq heap a a"
  by (simp add: key_eq_def)

lemma key_eq_sym: "key_eq heap a b \<Longrightarrow> key_eq heap b a"
  by (auto simp: key_eq_def dest: py_eq_sym)

lemma key_eq_trans: "key_eq heap a b \<Longrightarrow> key_eq heap b c \<Longrightarrow> key_eq heap a c"
  by (auto simp: key_eq_def dest: py_eq_trans)

lemma key_eq_py_eq: "heap a \<noteq> Missing \<Longrightarrow> key_eq heap a b \<longleftrightarrow> py_eq (heap a) (heap b)"
  by (auto simp: key_eq_def py_eq_self)

lemma in_take_iff: "i \<le> length xs \<Longrightarrow> x \<in> set (take i xs) \<longleftrightarrow> (\<exists>j<i. xs ! j = x)"
  by (auto simp: in_set_conv_nth)

lemma in_drop_iff: "x \<in> set (drop i xs) \<longleftrightarrow> (\<exists>j. i \<le> j \<and> j < length xs \<and> xs ! j = x)"
proof
  assume "x \<in> set (drop i xs)"
  then obtain k where "k < length xs - i" "drop i xs ! k = x" by (auto simp: in_set_conv_nth)
  then have "i \<le> i + k \<and> i + k < length xs \<and> xs ! (i + k) = x" by auto
  then show "\<exists>j. i \<le> j \<and> j < length xs \<and> xs ! j = x" by blast
next
  assume "\<exists>j. i \<le> j \<and> j < length xs \<and> xs ! j = x"
  then obtain j where j: "i \<le> j" "j < length xs" "xs ! j = x" by auto
  then have "drop i xs ! (j - i) = x" and "j - i < length (drop i xs)" by auto
  then show "x \<in> set (drop i xs)" by (metis nth_mem)
qed

text \<open>
  The invariant of the upward loop after \<open>i\<close> iterations: the keys of \<open>seen\<close> are elements
  already visited, every element already visited is matched by a key of \<open>seen\<close>, and the
  marks set so far say whether a matching element stands before.
\<close>

lemma duplicated_forward:
  assumes "i \<le> length values"
  shows "\<exists>seen result.
           fold (duplicated_step heap values) [0..<i] ([], replicate (length values) False)
             = (seen, result) \<and>
           set seen \<subseteq> set (take i values) \<and>
           (\<forall>j<i. dict_contains heap seen (values ! j)) \<and>
           length result = length values \<and>
           (\<forall>j<i. result ! j \<longleftrightarrow> (\<exists>k<j. key_eq heap (values ! k) (values ! j)))"
  using assms
proof (induction i)
  case 0
  show ?case by simp
next
  case (Suc i)
  then have i: "i < length values" by simp
  with Suc.IH obtain seen result where
    run: "fold (duplicated_step heap values) [0..<i] ([], replicate (length values) False)
             = (seen, result)"
    and sub: "set seen \<subseteq> set (take i values)"
    and cov: "\<forall>j<i. dict_contains heap seen (values ! j)"
    and len: "length result = length values"
    and old: "\<forall>j<i. result ! j \<longleftrightarrow> (\<exists>k<j. key_eq heap (values ! k) (values ! j))"
    by auto
  define b where "b = (\<exists>k<i. key_eq heap (values ! k) (values ! i))"
  have mem: "dict_contains heap seen (values ! i) \<longleftrightarrow> b"
  proof
    assume "dict_contains heap seen (values ! i)"
    then obtain k where k: "k \<in> set seen" "key_eq heap k (values ! i)"
      by (auto simp: dict_contains_def)
    from k(1) sub have "k \<in> set (take i values)" by auto
    then obtain j where "j < i" "values ! j = k" using i by (auto simp: in_take_iff)
    with k(2) show b unfolding b_def by auto
  next
    assume b
    then obtain j where j: "j < i" "key_eq heap (values ! j) (values ! i)" unfolding b_def by auto
    from cov j(1) obtain k where k: "k \<in> set seen" "key_eq heap k (values ! j)"
      by (auto simp: dict_contains_def)
    from k(2) j(2) have "key_eq heap k (values ! i)" by (rule key_eq_trans)
    with k(1) show "dict_contains heap seen (values ! i)" by (auto simp: dict_contains_def)
  qed
  define seen' where "seen' = (if b then seen else seen @ [values ! i])"
  have st: "duplicated_step heap values i (seen, result) = (seen', result[i := b])"
    using mem by (auto simp: duplicated_step_def seen'_def Let_def)
  have run': "fold (duplicated_step heap values) [0..<Suc i] ([], replicate (length values) False)
             = (seen', result[i := b])"
    using run st by simp
  have sub': "set seen' \<subseteq> set (take (Suc i) values)"
    using sub i by (auto simp: seen'_def take_Suc_conv_app_nth)
  have cov': "dict_contains heap seen' (values ! j)" if "j < Suc i" for j
  proof (cases "j = i")
    case True
    show ?thesis
    proof (cases b)
      case True
      with mem \<open>j = i\<close> show ?thesis by (simp add: seen'_def)
    next
      case False
      then show ?thesis using \<open>j = i\<close> by (simp add: seen'_def dict_contains_def key_eq_refl)
    qed
  next
    case False
    then have "j < i" using that by simp
    then have "dict_contains heap seen (values ! j)" using cov by simp
    then show ?thesis by (auto simp: seen'_def dict_contains_def)
  qed
  have new: "(result[i := b]) ! j \<longleftrightarrow> (\<exists>k<j. key_eq heap (values ! k) (values ! j))"
    if "j < Suc i" for j
  proof (cases "j = i")
    case True
    then show ?thesis using i len by (simp add: b_def)
  next
    case False
    then have "j < i" using that by simp
    then show ?thesis using old False by simp
  qed
  from run' sub' cov' len new show ?case by auto
qed

lemma duplicated_backward:
  assumes "m \<le> length values"
  shows "\<exists>seen result.
           fold (duplicated_step heap values) (rev [m..<length values])
               ([], replicate (length values) False)
             = (seen, result) \<and>
           set seen \<subseteq> set (drop m values) \<and>
           (\<forall>j. m \<le> j \<and> j < length values \<longrightarrow> dict_contains heap seen (values ! j)) \<and>
           length result = length values \<and>
           (\<forall>j. m \<le> j \<and> j < length values \<longrightarrow>
                (result ! j \<longleftrightarrow>
                   (\<exists>k. j < k \<and> k < length values \<and> key_eq heap (values ! k) (values ! j))))"
  using assms
proof (induction m rule: inc_induct)
  case base
  show ?case by auto
next
  case (step m)
  then obtain seen result where
    run: "fold (duplicated_step heap values) (rev [Suc m..<length values])
               ([], replicate (length values) False) = (seen, result)"
    and sub: "set seen \<subseteq> set (drop (Suc m) values)"
    and cov: "\<forall>j. Suc m \<le> j \<and> j < length values \<longrightarrow> dict_contains heap seen (values ! j)"
    and len: "length result = length values"
    and old: "\<forall>j. Suc m \<le> j \<and> j < length values \<longrightarrow>
                (result ! j \<longleftrightarrow>
                   (\<exists>k. j < k \<and> k < length values \<and> key_eq heap (values ! k) (values ! j)))"
    by auto
  have m: "m < length values" using step.hyps by simp
  have upt: "rev [m..<length values] = rev [Suc m..<length values] @ [m]"
    using m by (simp add: upt_conv_Cons)
  have drop: "set (drop m values) = insert (values ! m) (set (drop (Suc m) values))"
    using m by (simp add: Cons_nth_drop_Suc [symmetric])
  define b where "b = (\<exists>k. m < k \<and> k < length values \<and> key_eq heap (values ! k) (values ! m))"
  have mem: "dict_contains heap seen (values ! m) \<longleftrightarrow> b"
  proof
    assume "dict_contains heap seen (values ! m)"
    then obtain k where k: "k \<in> set seen" "key_eq heap k (values ! m)"
      by (auto simp: dict_contains_def)
    from k(1) sub have "k \<in> set (drop (Suc m) values)" by auto
    then obtain j where "Suc m \<le> j" "j < length values" "values ! j = k"
      by (auto simp: in_drop_iff)
    with k(2) show b unfolding b_def by (auto simp: Suc_le_eq)
  next
    assume b
    then obtain j where j: "m < j" "j < length values" "key_eq heap (values ! j) (values ! m)"
      unfolding b_def by auto
    from cov j(1,2) obtain k where k: "k \<in> set seen" "key_eq heap k (values ! j)"
      by (auto simp: dict_contains_def Suc_le_eq)
    from k(2) j(3) have "key_eq heap k (values ! m)" by (rule key_eq_trans)
    with k(1) show "dict_contains heap seen (values ! m)" by (auto simp: dict_contains_def)
  qed
  define seen' where "seen' = (if b then seen else seen @ [values ! m])"
  have st: "duplicated_step heap values m (seen, result) = (seen', result[m := b])"
    using mem by (auto simp: duplicated_step_def seen'_def Let_def)
  have run': "fold (duplicated_step heap values) (rev [m..<length values])
               ([], replicate (length values) False) = (seen', result[m := b])"
    unfolding upt using run st by simp
  have sub': "set seen' \<subseteq> set (drop m values)"
    unfolding drop using sub by (auto simp: seen'_def)
  have cov': "dict_contains heap seen' (values ! j)" if "m \<le> j \<and> j < length values" for j
  proof (cases "j = m")
    case True
    show ?thesis
    proof (cases b)
      case True
      with mem \<open>j = m\<close> show ?thesis by (simp add: seen'_def)
    next
      case False
      then show ?thesis using \<open>j = m\<close> by (simp add: seen'_def dict_contains_def key_eq_refl)
    qed
  next
    case False
    then have "Suc m \<le> j \<and> j < length values" using that by auto
    then have "dict_contains heap seen (values ! j)" using cov by simp
    then show ?thesis by (auto simp: seen'_def dict_contains_def)
  qed
  have new: "(result[m := b]) ! j \<longleftrightarrow>
       (\<exists>k. j < k \<and> k < length values \<and> key_eq heap (values ! k) (values ! j))"
    if "m \<le> j \<and> j < length values" for j
  proof (cases "j = m")
    case True
    then show ?thesis using m len by (simp add: b_def)
  next
    case False
    then have "Suc m \<le> j \<and> j < length values" using that by auto
    then show ?thesis using old False by simp
  qed
  from run' sub' cov' len new show ?case by auto
qed

lemma duplicated_length: "length (duplicated heap values take_last) = length values"
  using duplicated_forward [of "length values" "values" heap] duplicated_backward [of 0 "values" heap]
  by (auto simp: duplicated_def Let_def)

lemma duplicated_first:
  assumes "i < length values"
  shows "duplicated heap values False ! i \<longleftrightarrow> (\<exists>j<i. key_eq heap (values ! j) (values ! i))"
proof -
  from duplicated_forward [of "length values" "values" heap] obtain seen result where
    "fold (duplicated_step heap values) [0..<length values] ([], replicate (length values) False)
       = (seen, result)"
    and "\<forall>j<length values. result ! j \<longleftrightarrow> (\<exists>k<j. key_eq heap (values ! k) (values ! j))"
    by auto
  then show ?thesis using assms by (simp add: duplicated_def)
qed

lemma duplicated_last:
  assumes "i < length values"
  shows "duplicated heap values True ! i \<longleftrightarrow>
           (\<exists>j. i < j \<and> j < length values \<and> key_eq heap (values ! j) (values ! i))"
proof -
  from duplicated_backward [of 0 "values" heap] obtain seen result where
    "fold (duplicated_step heap values) (rev [0..<length values])
       ([], replicate (length values) False) = (seen, result)"
    and "\<forall>j. 0 \<le> j \<and> j < length values \<longrightarrow>
                (result ! j \<longleftrightarrow>
                   (\<exists>k. j < k \<and> k < length values \<and> key_eq heap (values ! k) (values ! j)))"
    by auto
  then show ?thesis using assms by (simp add: duplicated_def)
qed

text \<open>Among the elements that match a given one, the first, respectively the last, is the one left unmarked.\<close>

lemma duplicated_one_first:
  assumes "v \<in> set values"
  shows "\<exists>!i. i < length values \<and> key_eq heap (values ! i) v \<and> \<not> duplicated heap values False ! i"
proof -
  define P where "P i = (i < length values \<and> key_eq heap (values ! i) v)" for i
  from assms obtain k where "k < length values" "values ! k = v" by (auto simp: in_set_conv_nth)
  then have k: "P k" by (auto simp: P_def key_eq_refl)
  define i0 where "i0 = (LEAST i. P i)"
  have P0: "P i0" unfolding i0_def using k by (rule LeastI)
  have least: "\<not> P j" if "j < i0" for j
    using that unfolding i0_def by (rule not_less_Least)
  have i0: "i0 < length values" "key_eq heap (values ! i0) v" using P0 by (simp_all add: P_def)
  have nd: "\<not> duplicated heap values False ! i0"
  proof
    assume "duplicated heap values False ! i0"
    then have "\<exists>j<i0. key_eq heap (values ! j) (values ! i0)"
      using duplicated_first [OF i0(1), of heap] by simp
    then obtain j where j: "j < i0" "key_eq heap (values ! j) (values ! i0)" by blast
    from j(2) i0(2) have "key_eq heap (values ! j) v" by (rule key_eq_trans)
    then have "P j" using j(1) i0(1) by (simp add: P_def)
    then show False using least [OF j(1)] by simp
  qed
  show ?thesis
  proof (rule ex1I [of _ i0])
    show "i0 < length values \<and> key_eq heap (values ! i0) v \<and> \<not> duplicated heap values False ! i0"
      using i0 nd by simp
  next
    fix i assume a: "i < length values \<and> key_eq heap (values ! i) v \<and> \<not> duplicated heap values False ! i"
    show "i = i0"
    proof (rule ccontr)
      assume ne: "i \<noteq> i0"
      from a have "P i" by (simp add: P_def)
      then have "\<not> i < i0" using least [of i] by blast
      then have lt: "i0 < i" using ne by simp
      from a have "key_eq heap v (values ! i)" by (simp add: key_eq_sym)
      with i0(2) have "key_eq heap (values ! i0) (values ! i)" by (rule key_eq_trans)
      with lt have "\<exists>j<i. key_eq heap (values ! j) (values ! i)" by blast
      then have "duplicated heap values False ! i"
        using a duplicated_first [of i "values" heap] by simp
      then show False using a by simp
    qed
  qed
qed

lemma duplicated_one_last:
  assumes "v \<in> set values"
  shows "\<exists>!i. i < length values \<and> key_eq heap (values ! i) v \<and> \<not> duplicated heap values True ! i"
proof -
  define P where "P i = (i < length values \<and> key_eq heap (values ! i) v)" for i
  from assms obtain k where "k < length values" "values ! k = v" by (auto simp: in_set_conv_nth)
  then have k: "P k" by (auto simp: P_def key_eq_refl)
  have bound: "y \<le> length values" if "P y" for y using that by (simp add: P_def)
  define i0 where "i0 = (GREATEST i. P i)"
  have P0: "P i0" unfolding i0_def using k bound by (rule GreatestI_nat)
  have greatest: "j \<le> i0" if "P j" for j
    unfolding i0_def using that bound by (rule Greatest_le_nat)
  have i0: "i0 < length values" "key_eq heap (values ! i0) v" using P0 by (simp_all add: P_def)
  have nd: "\<not> duplicated heap values True ! i0"
  proof
    assume "duplicated heap values True ! i0"
    then have "\<exists>j. i0 < j \<and> j < length values \<and> key_eq heap (values ! j) (values ! i0)"
      using duplicated_last [OF i0(1), of heap] by simp
    then obtain j where j: "i0 < j" "j < length values" "key_eq heap (values ! j) (values ! i0)"
      by blast
    from j(3) i0(2) have "key_eq heap (values ! j) v" by (rule key_eq_trans)
    then have "P j" using j(2) by (simp add: P_def)
    then show False using greatest [of j] j(1) by simp
  qed
  show ?thesis
  proof (rule ex1I [of _ i0])
    show "i0 < length values \<and> key_eq heap (values ! i0) v \<and> \<not> duplicated heap values True ! i0"
      using i0 nd by simp
  next
    fix i assume a: "i < length values \<and> key_eq heap (values ! i) v \<and> \<not> duplicated heap values True ! i"
    show "i = i0"
    proof (rule ccontr)
      assume ne: "i \<noteq> i0"
      from a have "P i" by (simp add: P_def)
      then have "i \<le> i0" by (rule greatest)
      then have lt: "i < i0" using ne by simp
      from a have "key_eq heap v (values ! i)" by (simp add: key_eq_sym)
      with i0(2) have "key_eq heap (values ! i0) (values ! i)" by (rule key_eq_trans)
      with lt i0(1) have "\<exists>j. i < j \<and> j < length values \<and> key_eq heap (values ! j) (values ! i)"
        by blast
      then have "duplicated heap values True ! i"
        using a duplicated_last [of i "values" heap] by simp
      then show False using a by simp
    qed
  qed
qed

lemma key_eq_no_nan:
  assumes "\<forall>a \<in> set values. heap a \<noteq> Missing" and "i < length values" and "j < length values"
  shows "key_eq heap (values ! j) (values ! i) \<longleftrightarrow> py_eq (heap (values ! j)) (heap (values ! i))"
  using assms by (simp add: key_eq_py_eq)

lemma duplicated_example:
  "duplicated rows_heap [0, 1, 2, 3, 3, 4] False = [False, False, True, False, True, False]"
  "duplicated rows_heap [0, 1, 2, 3, 3, 4] True = [True, False, False, True, False, False]"
  by (simp_all add: duplicated_def duplicated_step_def dict_contains_def key_eq_def rows_heap_def
        upt_rec Let_def)


text \<open>
  C10, for the equality the code uses. \<open>duplicated\<close> returns one boolean per element. Two
  elements match when they are equal as dictionary keys: the same object, or \<open>==\<close>. With
  \<open>take_last=False\<close> an element is marked exactly when a matching element stands before it,
  with \<open>take_last=True\<close> exactly when a matching element stands after it. In both modes,
  among the elements that match a given one exactly one is left unmarked. On a list
  without NaN, matching is \<open>==\<close>.
\<close>

theorem duplicated_marks:
  "length (duplicated heap values take_last) = length values \<and>
   (\<forall>i < length values.
      duplicated heap values False ! i \<longleftrightarrow> (\<exists>j<i. key_eq heap (values ! j) (values ! i))) \<and>
   (\<forall>i < length values.
      duplicated heap values True ! i \<longleftrightarrow>
        (\<exists>j. i < j \<and> j < length values \<and> key_eq heap (values ! j) (values ! i))) \<and>
   (\<forall>v \<in> set values.
      \<exists>!i. i < length values \<and> key_eq heap (values ! i) v \<and>
           \<not> duplicated heap values take_last ! i) \<and>
   ((\<forall>a \<in> set values. heap a \<noteq> Missing) \<longrightarrow>
      (\<forall>i < length values. \<forall>j < length values.
         key_eq heap (values ! j) (values ! i) \<longleftrightarrow> py_eq (heap (values ! j)) (heap (values ! i))))"
proof -
  have 1: "length (duplicated heap values take_last) = length values"
    by (rule duplicated_length)
  have 2: "\<forall>i < length values.
      duplicated heap values False ! i \<longleftrightarrow> (\<exists>j<i. key_eq heap (values ! j) (values ! i))"
    by (intro allI impI) (rule duplicated_first)
  have 3: "\<forall>i < length values.
      duplicated heap values True ! i \<longleftrightarrow>
        (\<exists>j. i < j \<and> j < length values \<and> key_eq heap (values ! j) (values ! i))"
    by (intro allI impI) (rule duplicated_last)
  have 4: "\<forall>v \<in> set values.
      \<exists>!i. i < length values \<and> key_eq heap (values ! i) v \<and>
           \<not> duplicated heap values take_last ! i"
  proof
    fix v assume "v \<in> set values"
    then show "\<exists>!i. i < length values \<and> key_eq heap (values ! i) v \<and>
           \<not> duplicated heap values take_last ! i"
      using duplicated_one_first [of v "values" heap] duplicated_one_last [of v "values" heap]
      by (cases take_last) simp_all
  qed
  have 5: "(\<forall>a \<in> set values. heap a \<noteq> Missing) \<longrightarrow>
      (\<forall>i < length values. \<forall>j < length values.
         key_eq heap (values ! j) (values ! i) \<longleftrightarrow> py_eq (heap (values ! j)) (heap (values ! i)))"
    by (intro impI allI) (rule key_eq_no_nan)
  show ?thesis
    apply (intro conjI)
        apply (rule 1)
       apply (rule 2)
      apply (rule 3)
     apply (rule 4)
    apply (rule 5)
    done
qed

text \<open>
  Witness for C10: the objects at positions 0 and 2 are two equal numbers, the object at
  positions 3 and 4 is one NaN, and the object at position 5 is another NaN. Position 4 is
  marked because the same object stands at position 3; among the two positions of that
  object only the last is unmarked with \<open>take_last=True\<close>. The list \<open>[0, 1, 2]\<close> has no NaN.
\<close>

theorem duplicated_marks_witness:
  "duplicated rows_heap [0, 1, 2, 3, 3, 4] False = [False, False, True, False, True, False] \<and>
   duplicated rows_heap [0, 1, 2, 3, 3, 4] True = [True, False, False, True, False, False] \<and>
   (4::nat) < length [0, 1, 2, 3, 3, 4 :: addr] \<and>
   duplicated rows_heap [0, 1, 2, 3, 3, 4] False ! 4 \<and>
   (\<exists>j<4. key_eq rows_heap ([0, 1, 2, 3, 3, 4] ! j) ([0, 1, 2, 3, 3, 4] ! 4)) \<and>
   (3::addr) \<in> set [0, 1, 2, 3, 3, 4] \<and>
   (\<exists>!i. i < length [0, 1, 2, 3, 3, 4 :: addr] \<and> key_eq rows_heap ([0, 1, 2, 3, 3, 4] ! i) 3 \<and>
       \<not> duplicated rows_heap [0, 1, 2, 3, 3, 4] True ! i) \<and>
   rows_heap 0 \<noteq> Missing \<and> rows_heap 1 \<noteq> Missing \<and> rows_heap 2 \<noteq> Missing \<and>
   (key_eq rows_heap ([0, 1, 2] ! 2) ([0, 1, 2] ! 0) \<longleftrightarrow>
      py_eq (rows_heap ([0, 1, 2] ! 2)) (rows_heap ([0, 1, 2] ! 0)))"
proof -
  note t = duplicated_marks [of rows_heap "[0, 1, 2, 3, 3, 4]" True]
  note t3 = duplicated_marks [of rows_heap "[0, 1, 2]" True]
  have h: "(4::nat) < length [0, 1, 2, 3, 3, 4 :: addr]" by simp
  have m: "(3::addr) \<in> set [0, 1, 2, 3, 3, 4]" by simp
  have nn: "\<forall>a \<in> set [0, 1, 2 :: addr]. rows_heap a \<noteq> Missing"
    by (simp add: rows_heap_def)
  from t have a: "\<forall>i < length [0, 1, 2, 3, 3, 4 :: addr].
      duplicated rows_heap [0, 1, 2, 3, 3, 4] False ! i \<longleftrightarrow>
        (\<exists>j<i. key_eq rows_heap ([0, 1, 2, 3, 3, 4] ! j) ([0, 1, 2, 3, 3, 4] ! i))"
    by (elim conjE)
  from t have b: "\<forall>v \<in> set [0, 1, 2, 3, 3, 4 :: addr].
      \<exists>!i. i < length [0, 1, 2, 3, 3, 4 :: addr] \<and> key_eq rows_heap ([0, 1, 2, 3, 3, 4] ! i) v \<and>
        \<not> duplicated rows_heap [0, 1, 2, 3, 3, 4] True ! i"
    by (elim conjE)
  from t3 have c: "(\<forall>a \<in> set [0, 1, 2 :: addr]. rows_heap a \<noteq> Missing) \<longrightarrow>
      (\<forall>i < length [0, 1, 2 :: addr]. \<forall>j < length [0, 1, 2 :: addr].
         key_eq rows_heap ([0, 1, 2] ! j) ([0, 1, 2] ! i) \<longleftrightarrow>
           py_eq (rows_heap ([0, 1, 2] ! j)) (rows_heap ([0, 1, 2] ! i)))"
    by (elim conjE)
  have d: "duplicated rows_heap [0, 1, 2, 3, 3, 4] False ! 4"
    unfolding duplicated_example(1) by simp
  from a [rule_format, OF h] d
  have e: "\<exists>j<4. key_eq rows_heap ([0, 1, 2, 3, 3, 4] ! j) ([0, 1, 2, 3, 3, 4] ! 4)"
    by (rule iffD1)
  from b m have u: "\<exists>!i. i < length [0, 1, 2, 3, 3, 4 :: addr] \<and>
       key_eq rows_heap ([0, 1, 2, 3, 3, 4] ! i) 3 \<and>
       \<not> duplicated rows_heap [0, 1, 2, 3, 3, 4] True ! i"
    by (rule bspec)
  have k: "key_eq rows_heap ([0, 1, 2] ! 2) ([0, 1, 2] ! 0) \<longleftrightarrow>
      py_eq (rows_heap ([0, 1, 2] ! 2)) (rows_heap ([0, 1, 2] ! 0))"
  proof -
    have i0: "(0::nat) < length [0, 1, 2 :: addr]" and j2: "(2::nat) < length [0, 1, 2 :: addr]"
      by simp_all
    from mp [OF c nn] i0 j2 show ?thesis by blast
  qed
  have n0: "rows_heap 0 \<noteq> Missing" and n1: "rows_heap 1 \<noteq> Missing"
    and n2: "rows_heap 2 \<noteq> Missing"
    by (simp_all add: rows_heap_def)
  from duplicated_example h d e m u n0 n1 n2 k show ?thesis by (intro conjI)
qed

text \<open>
  C10 as worded fails on a NaN. The list holds one NaN object twice: the second position is
  marked, although the element there is \<open>==\<close> to no element before it. Two different NaN
  objects are both left unmarked.
\<close>

theorem duplicated_nan_counterexample:
  "duplicated rows_heap [3, 3] False = [False, True] \<and>
   \<not> (\<exists>j<1. py_eq (rows_heap ([3, 3] ! j)) (rows_heap ([3, 3] ! 1))) \<and>
   duplicated rows_heap [3, 4] False = [False, False]"
  by (simp add: duplicated_def duplicated_step_def dict_contains_def key_eq_def rows_heap_def
        upt_rec Let_def)


section \<open>Rolling median: the two loops against the specification\<close>

lemma foldE_cong:
  assumes "\<And>x s. x \<in> set xs \<Longrightarrow> f x s = g x s"
  shows "foldE f xs s = foldE g xs s"
  using assms by (induction xs arbitrary: s) (auto split: sum.splits)

lemma foldE_upt_snoc:
  "a \<le> b \<Longrightarrow> foldE f [a..<Suc b] s =
     (case foldE f [a..<b] s of Inl e \<Rightarrow> Inl e | Inr s' \<Rightarrow> f b s')"
  by (simp add: foldE_append split: sum.splits)

lemma live_0: "live arg 0 = 0"
  by (simp add: live_def)

lemma live_Suc:
  "j < length arg \<Longrightarrow> live arg (Suc j) = live arg j + (if feq (arg ! j) (arg ! j) then 1 else 0)"
  by (simp add: live_def take_Suc_conv_app_nth)

lemma live_diff:
  assumes "j' \<le> j" and "j \<le> length arg"
  shows "0 \<le> live arg j - live arg j' \<and> live arg j - live arg j' \<le> int (j - j')"
  using assms
proof (induction j rule: dec_induct)
  case base
  show ?case by simp
next
  case (step j)
  then show ?case by (auto simp: live_Suc)
qed

lemma live_le: "j \<le> length arg \<Longrightarrow> 0 \<le> live arg j \<and> live arg j \<le> int j"
  using live_diff [of 0 j arg] by (simp add: live_0)

lemma live_window:
  assumes "i < length arg"
  shows "live arg (Suc i - w) - live arg (i - w) =
           (if w \<le> i \<and> feq (arg ! (i - w)) (arg ! (i - w)) then 1 else 0)"
proof (cases "w \<le> i")
  case True
  then have "Suc i - w = Suc (i - w)" by simp
  moreover have "i - w < length arg" using assms by simp
  ultimately show ?thesis using True by (simp add: live_Suc)
next
  case False
  then have "Suc i - w = 0" "i - w = 0" by simp_all
  then show ?thesis using False by simp
qed

lemma res_eq: "roll_median_res sl nobs = median_of_window sl nobs"
  by (simp add: roll_median_res_def median_of_window_def Let_def)

lemma fdiv_two: "\<exists>q. fdiv x (Fin 2) = Inr q"
  by (cases x) auto

lemma median_total: "\<exists>q. median_of_window sl nobs = Inr q"
  using fdiv_two by (auto simp: median_of_window_def)

lemma step_eq:
  assumes "0 \<le> win" and "i < length arg"
  shows "roll_median_step arg win minp i st = rolling_step arg (nat win) minp i st"
proof -
  obtain sl nobs out where st: "st = (sl, nobs, out)" by (cases st) auto
  have c: "(int i > win - 1) = (nat win \<le> i)" using assms(1) by auto
  show ?thesis
  proof (cases "nat win \<le> i")
    case True
    then have "\<not> (int i - win < 0 \<or> nat (int i - win) \<ge> length arg)"
      and "nat (int i - win) = i - nat win"
      using assms by auto
    then show ?thesis
      using True c by (simp add: roll_median_step_def rolling_step_def st res_eq Let_def)
  next
    case False
    then show ?thesis
      using c by (simp add: roll_median_step_def rolling_step_def st res_eq Let_def)
  qed
qed

lemma fill_run:
  assumes "i \<le> length arg" and "length out = length arg"
  shows "\<exists>sl' out'. foldE (roll_median_fill arg) [0..<i] (sl, 0, out) = Inr (sl', live arg i, out') \<and>
           length out' = length arg \<and> (\<forall>j<i. out' ! j = NaN)"
  using assms(1)
proof (induction i)
  case 0
  show ?case using assms(2) by (simp add: live_0)
next
  case (Suc i)
  then obtain sl' out' where
    run: "foldE (roll_median_fill arg) [0..<i] (sl, 0, out) = Inr (sl', live arg i, out')"
    and len: "length out' = length arg" and old: "\<forall>j<i. out' ! j = NaN"
    by auto
  have i: "i < length arg" using Suc.prems by simp
  have "\<exists>sl''. roll_median_fill arg i (sl', live arg i, out')
          = Inr (sl'', live arg (Suc i), out'[i := NaN])"
    using i by (cases "feq (arg ! i) (arg ! i)") (simp_all add: roll_median_fill_def live_Suc Let_def)
  then obtain sl'' where
    "roll_median_fill arg i (sl', live arg i, out') = Inr (sl'', live arg (Suc i), out'[i := NaN])"
    by blast
  moreover have "\<forall>j<Suc i. (out'[i := NaN]) ! j = NaN"
    using old len i by (auto simp: nth_list_update less_Suc_eq)
  ultimately show ?case using run len by (simp add: foldE_append)
qed

text \<open>The counter after a step, and the output of a step that stays below the threshold.\<close>

lemma rolling_step_nobs:
  assumes "i < length arg"
  shows "\<exists>sl' res. rolling_step arg w minp i (sl, nobs, out)
            = Inr (sl', nobs + (live arg (Suc i) - live arg i)
                          - (live arg (Suc i - w) - live arg (i - w)), out[i := res]) \<and>
           (nobs + (live arg (Suc i) - live arg i)
                 - (live arg (Suc i - w) - live arg (i - w)) < minp \<longrightarrow> res = NaN)"
proof -
  define rem where "rem = (w \<le> i \<and> feq (arg ! (i - w)) (arg ! (i - w)))"
  define ins where "ins = feq (arg ! i) (arg ! i)"
  define sl1 where "sl1 = (if rem then skiplist_remove sl (fval (arg ! (i - w))) else sl)"
  define sl2 where "sl2 = (if ins then skiplist_insert sl1 (fval (arg ! i)) else sl1)"
  define n2 where "n2 = nobs - (if rem then 1 else 0) + (if ins then 1 else 0)"
  have n2: "n2 = nobs + (live arg (Suc i) - live arg i) - (live arg (Suc i - w) - live arg (i - w))"
    using live_window [OF assms, of w] live_Suc [OF assms]
    by (simp add: n2_def rem_def ins_def)
  obtain q where q: "median_of_window sl2 n2 = Inr q" using median_total by blast
  define res where "res = (if n2 \<ge> minp then q else NaN)"
  have "rolling_step arg w minp i (sl, nobs, out) = Inr (sl2, n2, out[i := res])"
    using q
    by (auto simp: rolling_step_def rem_def ins_def sl1_def sl2_def n2_def res_def Let_def)
  moreover have "n2 < minp \<longrightarrow> res = NaN" by (simp add: res_def)
  ultimately show ?thesis unfolding n2 by blast
qed

lemma rolling_run:
  assumes "a \<le> b" and "b \<le> length arg" and "length out = length arg"
    and bound: "\<And>i. a \<le> i \<Longrightarrow> i < b \<Longrightarrow>
           n0 + (live arg (Suc i) - live arg a) - (live arg (Suc i - w) - live arg (a - w)) < minp"
  shows "\<exists>sl' out'. foldE (rolling_step arg w minp) [a..<b] (sl, n0, out)
            = Inr (sl', n0 + (live arg b - live arg a) - (live arg (b - w) - live arg (a - w)), out') \<and>
           length out' = length arg \<and>
           (\<forall>j. a \<le> j \<and> j < b \<longrightarrow> out' ! j = NaN) \<and>
           (\<forall>j. j < a \<longrightarrow> out' ! j = out ! j)"
  using assms(1,2) bound
proof (induction b rule: dec_induct)
  case base
  have "\<forall>j. a \<le> j \<and> j < a \<longrightarrow> out ! j = NaN" by auto
  then show ?case using assms(3) by simp
next
  case (step b)
  have b: "b < length arg" using step.prems(1) by simp
  have "\<exists>sl' out'. foldE (rolling_step arg w minp) [a..<b] (sl, n0, out)
            = Inr (sl', n0 + (live arg b - live arg a) - (live arg (b - w) - live arg (a - w)), out') \<and>
           length out' = length arg \<and>
           (\<forall>j. a \<le> j \<and> j < b \<longrightarrow> out' ! j = NaN) \<and>
           (\<forall>j. j < a \<longrightarrow> out' ! j = out ! j)"
    using step.prems b by (intro step.IH) auto
  then obtain sl' out' where
    run: "foldE (rolling_step arg w minp) [a..<b] (sl, n0, out)
            = Inr (sl', n0 + (live arg b - live arg a) - (live arg (b - w) - live arg (a - w)), out')"
    and len: "length out' = length arg"
    and nan: "\<forall>j. a \<le> j \<and> j < b \<longrightarrow> out' ! j = NaN"
    and old: "\<forall>j. j < a \<longrightarrow> out' ! j = out ! j"
    by blast
  define nb where "nb = n0 + (live arg b - live arg a) - (live arg (b - w) - live arg (a - w))"
  from rolling_step_nobs [OF b, of w minp sl' nb out'] obtain sl'' res where
    st: "rolling_step arg w minp b (sl', nb, out')
            = Inr (sl'', nb + (live arg (Suc b) - live arg b)
                          - (live arg (Suc b - w) - live arg (b - w)), out'[b := res])"
    and r: "nb + (live arg (Suc b) - live arg b)
                 - (live arg (Suc b - w) - live arg (b - w)) < minp \<longrightarrow> res = NaN"
    by blast
  have e: "nb + (live arg (Suc b) - live arg b) - (live arg (Suc b - w) - live arg (b - w))
         = n0 + (live arg (Suc b) - live arg a) - (live arg (Suc b - w) - live arg (a - w))"
    by (simp add: nb_def)
  have "n0 + (live arg (Suc b) - live arg a) - (live arg (Suc b - w) - live arg (a - w)) < minp"
    using step.hyps by (intro step.prems(2)) auto
  then have res: "res = NaN" using r e by simp
  have st': "rolling_step arg w minp b (sl', nb, out')
          = Inr (sl'', n0 + (live arg (Suc b) - live arg a)
                           - (live arg (Suc b - w) - live arg (a - w)), out'[b := NaN])"
    using st unfolding e res .
  have run': "foldE (rolling_step arg w minp) [a..<b] (sl, n0, out) = Inr (sl', nb, out')"
    using run unfolding nb_def .
  have "foldE (rolling_step arg w minp) [a..<Suc b] (sl, n0, out)
          = Inr (sl'', n0 + (live arg (Suc b) - live arg a)
                           - (live arg (Suc b - w) - live arg (a - w)), out'[b := NaN])"
    unfolding foldE_upt_snoc [OF step.hyps(1)] run' using st' by simp
  moreover have "\<forall>j. a \<le> j \<and> j < Suc b \<longrightarrow> (out'[b := NaN]) ! j = NaN"
    using nan len b by (auto simp: nth_list_update less_Suc_eq)
  moreover have "\<forall>j. j < a \<longrightarrow> (out'[b := NaN]) ! j = out ! j"
    using old step.hyps(1) by (auto simp: nth_list_update)
  ultimately show ?case using len by auto
qed

lemma check_minp_range:
  assumes "check_minp minp N = Inr minp'" and "0 \<le> N"
  shows "1 \<le> minp'" and "minp' \<le> N + 1"
  using assms by (auto simp: check_minp_def split: if_splits)

lemma all_nan:
  assumes "length out = n" and "\<forall>j<n. out ! j = NaN"
  shows "out = replicate n NaN"
  using assms by (intro nth_equalityI) auto

lemma upt_split: "m \<le> n \<Longrightarrow> [0..<n] = [0..<m] @ [m..<n]"
  using upt_add_eq_append [of 0 m "n - m"] by simp

lemma fill_eq_step:
  assumes "i < w" and "nobs + 1 < minp"
  shows "rolling_step arg w minp i (sl, nobs, out) = roll_median_fill arg i (sl, nobs, out)"
  using assms by (simp add: rolling_step_def roll_median_fill_def Let_def)

lemma fill_eq_run:
  assumes "i \<le> m" and "m \<le> w" and "m \<le> length arg" and "length out = length arg"
    and "int m < minp"
  shows "foldE (rolling_step arg w minp) [0..<i] (sl, 0, out)
           = foldE (roll_median_fill arg) [0..<i] (sl, 0, out)"
  using assms(1)
proof (induction i)
  case 0
  show ?case by simp
next
  case (Suc i)
  then have IH: "foldE (rolling_step arg w minp) [0..<i] (sl, 0, out)
           = foldE (roll_median_fill arg) [0..<i] (sl, 0, out)" by simp
  have i: "i \<le> length arg" "i < w" using Suc.prems assms(2,3) by auto
  from fill_run [OF i(1) assms(4), of sl] obtain sl' out' where
    run: "foldE (roll_median_fill arg) [0..<i] (sl, 0, out) = Inr (sl', live arg i, out')"
    by blast
  have "live arg i \<le> int i" using live_le [OF i(1)] by simp
  then have "live arg i + 1 < minp" using Suc.prems assms(5) by simp
  with i(2) have "rolling_step arg w minp i (sl', live arg i, out')
          = roll_median_fill arg i (sl', live arg i, out')"
    by (rule fill_eq_step)
  then show ?case using IH run by (simp add: foldE_append split: sum.splits)
qed

lemma rolling_total:
  assumes "a \<le> b" and "b \<le> length arg" and "length out = length arg"
  shows "\<exists>sl' nb out'. foldE (rolling_step arg w minp) [a..<b] (sl, n0, out) = Inr (sl', nb, out') \<and>
           length out' = length arg"
  using assms(1,2)
proof (induction b rule: dec_induct)
  case base
  show ?case using assms(3) by simp
next
  case (step b)
  then obtain sl' nb out' where
    r: "foldE (rolling_step arg w minp) [a..<b] (sl, n0, out) = Inr (sl', nb, out')"
    and l: "length out' = length arg" by auto
  have "b < length arg" using step.prems by simp
  from rolling_step_nobs [OF this, of w minp sl' nb out'] obtain sl'' n'' res where
    "rolling_step arg w minp b (sl', nb, out') = Inr (sl'', n'', out'[b := res])" by blast
  then show ?case using r l step.hyps(1) by (simp add: foldE_append)
qed

text \<open>The code against the specification's wording, for a window width that is not negative.\<close>

lemma roll_median_eq_spec:
  assumes win: "0 \<le> win" and mp: "roll_median_minp arg win minp = Inr minp'"
  shows "roll_median arg win minp = rolling_median_spec arg (nat win) minp'"
    and "\<exists>out. roll_median arg win minp = Inr out \<and> length out = length arg"
proof -
  let ?N = "length arg"
  define w where "w = nat win"
  define m where "m = nat (minp' - 1)"
  have rng: "1 \<le> minp'" "minp' \<le> int ?N + 1"
    using check_minp_range [of minp "int ?N" minp'] mp by (simp_all add: roll_median_minp_def)
  then have m: "m \<le> ?N" "minp' = int m + 1" by (simp_all add: m_def)
  have lenE: "length (np_empty ?N :: float64 list) = ?N" by (simp add: np_empty_def)
  from fill_run [OF m(1) lenE, of "[]"] obtain slm outm where
    fill: "foldE (roll_median_fill arg) [0..<m] ([], 0, np_empty ?N) = Inr (slm, live arg m, outm)"
    and lenm: "length outm = ?N" and nanm: "\<forall>j<m. outm ! j = NaN"
    by blast
  have steps: "foldE (roll_median_step arg win minp') [m..<?N] st
                 = foldE (rolling_step arg w minp') [m..<?N] st" for st
    unfolding w_def using win by (intro foldE_cong step_eq) auto
  have code: "roll_median arg win minp =
      (case foldE (rolling_step arg w minp') [m..<?N] (slm, live arg m, outm) of
         Inl e \<Rightarrow> Inl e | Inr (sl', nobs, out') \<Rightarrow> Inr out')"
    using mp fill steps by (simp add: roll_median_def skiplist_init_def m_def Let_def)
  have spec: "rolling_median_spec arg w minp' =
      (case foldE (rolling_step arg w minp') [0..<?N] ([], 0, np_empty ?N) of
         Inl e \<Rightarrow> Inl e | Inr (sl', nobs, out') \<Rightarrow> Inr out')"
    by (simp add: rolling_median_spec_def)
  have both: "roll_median arg win minp = rolling_median_spec arg w minp' \<and>
              (\<exists>out. roll_median arg win minp = Inr out \<and> length out = ?N)"
  proof (cases "m \<le> w")
    case True
    have "foldE (rolling_step arg w minp') [0..<m] ([], 0, np_empty ?N)
            = Inr (slm, live arg m, outm)"
      using fill_eq_run [OF order_refl True m(1) lenE, of minp' "[]"] m(2) fill by simp
    then have "foldE (rolling_step arg w minp') [0..<?N] ([], 0, np_empty ?N)
            = foldE (rolling_step arg w minp') [m..<?N] (slm, live arg m, outm)"
      using upt_split [OF m(1)] by (simp add: foldE_append)
    then have eq: "roll_median arg win minp = rolling_median_spec arg w minp'"
      using code spec by simp
    from rolling_total [OF m(1) order_refl lenm, of w minp' slm "live arg m"]
    obtain sl' nb out' where
      "foldE (rolling_step arg w minp') [m..<?N] (slm, live arg m, outm) = Inr (sl', nb, out')"
      and "length out' = ?N" by blast
    then have "roll_median arg win minp = Inr out' \<and> length out' = ?N"
      using code by simp
    then show ?thesis using eq by blast
  next
    case False
    then have wm: "w < m" by simp
    have b1: "live arg m + (live arg (Suc i) - live arg m)
             - (live arg (Suc i - w) - live arg (m - w)) < minp'"
      if "m \<le> i" "i < ?N" for i
    proof -
      have "live arg (Suc i) - live arg (Suc i - w) \<le> int (Suc i - (Suc i - w))"
        using live_diff [of "Suc i - w" "Suc i" arg] that by simp
      moreover have "live arg (m - w) \<le> int (m - w)"
        using live_le [of "m - w" arg] m(1) by simp
      ultimately show ?thesis using wm m(2) that by simp
    qed
    from rolling_run [where sl = slm, OF m(1) order_refl lenm b1]
    obtain sl' out' where
      "foldE (rolling_step arg w minp') [m..<?N] (slm, live arg m, outm)
          = Inr (sl', live arg m + (live arg ?N - live arg m)
                     - (live arg (?N - w) - live arg (m - w)), out')"
      and l: "length out' = ?N"
      and n: "\<forall>j. m \<le> j \<and> j < ?N \<longrightarrow> out' ! j = NaN"
      and o: "\<forall>j. j < m \<longrightarrow> out' ! j = outm ! j"
      by blast
    then have c: "roll_median arg win minp = Inr out'" using code by simp
    have "\<forall>j<?N. out' ! j = NaN"
      using n o nanm by (metis not_le)
    with l have out': "out' = replicate ?N NaN" by (rule all_nan)
    have b2: "0 + (live arg (Suc i) - live arg 0)
             - (live arg (Suc i - w) - live arg (0 - w)) < minp'"
      if "0 \<le> i" "i < ?N" for i
    proof -
      have "live arg (Suc i) - live arg (Suc i - w) \<le> int (Suc i - (Suc i - w))"
        using live_diff [of "Suc i - w" "Suc i" arg] that by simp
      then show ?thesis using wm m(2) by (simp add: live_0)
    qed
    from rolling_run [where sl = "[]" and ?n0.0 = 0, OF le0 order_refl lenE b2]
    obtain sl2 out2 where
      "foldE (rolling_step arg w minp') [0..<?N] ([], 0, np_empty ?N)
          = Inr (sl2, 0 + (live arg ?N - live arg 0) - (live arg (?N - w) - live arg (0 - w)), out2)"
      and l2: "length out2 = ?N"
      and n2: "\<forall>j. 0 \<le> j \<and> j < ?N \<longrightarrow> out2 ! j = NaN"
      by blast
    then have s: "rolling_median_spec arg w minp' = Inr out2" using spec by simp
    have "out2 = replicate ?N NaN" using l2 n2 by (intro all_nan) auto
    then show ?thesis using c s out' l by simp
  qed
  then show "roll_median arg win minp = rolling_median_spec arg (nat win) minp'"
    and "\<exists>out. roll_median arg win minp = Inr out \<and> length out = length arg"
    unfolding w_def by blast+
qed


section \<open>Rolling median: the window contents\<close>

lemma sorted_skiplist_insert:
  "sorted sl \<Longrightarrow> sorted (skiplist_insert sl v)"
proof (induction sl)
  case Nil
  show ?case by (simp add: skiplist_insert_def)
next
  case (Cons a sl)
  then have IH: "sorted (skiplist_insert sl v)" by simp
  show ?case
  proof (cases "a \<le> v")
    case True
    have "set (skiplist_insert sl v) = insert v (set sl)"
      using takeWhile_dropWhile_id [of "\<lambda>x. x \<le> v" sl]
      by (metis skiplist_insert_def list.simps(15) set_append Un_insert_right)
    then show ?thesis
      using True IH Cons.prems by (auto simp: skiplist_insert_def)
  next
    case False
    then show ?thesis using Cons.prems by (auto simp: skiplist_insert_def)
  qed
qed

lemma mset_skiplist_insert: "mset (skiplist_insert sl v) = add_mset v (mset sl)"
proof -
  have "mset (takeWhile (\<lambda>x. x \<le> v) sl @ dropWhile (\<lambda>x. x \<le> v) sl) = mset sl"
    by simp
  then show ?thesis by (simp add: skiplist_insert_def del: takeWhile_dropWhile_id)
qed

lemma sorted_skiplist_remove: "sorted sl \<Longrightarrow> sorted (skiplist_remove sl v)"
  by (simp add: skiplist_remove_def sorted_remove1)

lemma mset_skiplist_remove: "mset (skiplist_remove sl v) = mset sl - {#v#}"
  by (simp add: skiplist_remove_def)

text \<open>How the window moves from position \<open>i - 1\<close> to position \<open>i\<close>.\<close>

lemma win_values_0: "win_values arg w 0 = {#}"
  by (simp add: win_values_def)

lemma win_values_window: "win_values arg w (Suc i) = mset (window arg w i)"
  by (simp add: win_values_def window_def)

lemma win_values_Suc:
  assumes "i < length arg" and "1 \<le> w"
  shows "win_values arg w (Suc i) =
           (win_values arg w i
              - (if w \<le> i \<and> feq (arg ! (i - w)) (arg ! (i - w)) then {#fval (arg ! (i - w))#} else {#}))
              + (if feq (arg ! i) (arg ! i) then {#fval (arg ! i)#} else {#})"
proof -
  have tk: "take (Suc i) arg = take i arg @ [arg ! i]"
    using assms(1) by (simp add: take_Suc_conv_app_nth)
  have lt: "length (take i arg) = i" using assms(1) by simp
  have "Suc i - w - i = 0" using assms(2) by simp
  then have new: "drop (Suc i - w) (take (Suc i) arg) = drop (Suc i - w) (take i arg) @ [arg ! i]"
    unfolding tk drop_append lt by simp
  show ?thesis
  proof (cases "w \<le> i")
    case True
    then have s: "Suc i - w = Suc (i - w)" by simp
    have "i - w < length (take i arg)" using assms True by simp
    then have "drop (i - w) (take i arg) = take i arg ! (i - w) # drop (Suc (i - w)) (take i arg)"
      by (rule Cons_nth_drop_Suc [symmetric])
    moreover have "take i arg ! (i - w) = arg ! (i - w)" using assms True by simp
    ultimately have old: "drop (i - w) (take i arg) = arg ! (i - w) # drop (Suc i - w) (take i arg)"
      using s by simp
    show ?thesis
      unfolding win_values_def new old using True by simp
  next
    case False
    then have "Suc i - w = 0" "i - w = 0" by simp_all
    then show ?thesis
      unfolding win_values_def new using False by simp
  qed
qed

lemma median_in_range:
  assumes "1 \<le> length sl"
  shows "median_of_window sl (int (length sl)) = Inr (Fin (median_sorted sl))"
proof -
  define n where "n = length sl"
  have d: "int n div 2 = int (n div 2)" by simp
  have o: "(int n mod 2 \<noteq> 0) = odd n" by presburger
  have r: "n div 2 < n" using assms by (simp add: n_def)
  show ?thesis
  proof (cases "odd n")
    case True
    then show ?thesis
      using r unfolding median_of_window_def median_sorted_def n_def [symmetric] o d
      by (simp add: skiplist_get_def n_def)
  next
    case False
    have "1 \<le> n" using assms by (simp add: n_def)
    with False have "2 \<le> n" by presburger
    then have r2: "n div 2 - 1 < n" and p: "0 \<le> int (n div 2) - 1"
      and e: "nat (int (n div 2) - 1) = n div 2 - 1" by auto
    show ?thesis
      using False r r2 p e unfolding median_of_window_def median_sorted_def n_def [symmetric] o d
      by (simp add: skiplist_get_def n_def Let_def)
  qed
qed

lemma rolling_decl_step:
  assumes "1 \<le> w" and "1 \<le> minp" and "i < length arg"
    and "sorted sl" and "mset sl = win_values arg w i"
  shows "\<exists>sl'. rolling_step arg w minp i (sl, int (length sl), out)
            = Inr (sl', int (length sl'), out[i := rolling_value arg w minp i]) \<and>
           sorted sl' \<and> mset sl' = win_values arg w (Suc i)"
proof -
  define rem where "rem = (w \<le> i \<and> feq (arg ! (i - w)) (arg ! (i - w)))"
  define ins where "ins = feq (arg ! i) (arg ! i)"
  define sl1 where "sl1 = (if rem then skiplist_remove sl (fval (arg ! (i - w))) else sl)"
  define sl2 where "sl2 = (if ins then skiplist_insert sl1 (fval (arg ! i)) else sl1)"
  note ws = win_values_Suc [OF assms(3,1)]
  have mem: "fval (arg ! (i - w)) \<in># mset sl" if rem
  proof -
    have "i - w < length (take i arg)" using assms(1,3) that by (auto simp: rem_def)
    then have "drop (i - w) (take i arg) = take i arg ! (i - w) # drop (Suc (i - w)) (take i arg)"
      by (rule Cons_nth_drop_Suc [symmetric])
    moreover have "take i arg ! (i - w) = arg ! (i - w)"
      using assms(1,3) that by (auto simp: rem_def)
    ultimately show ?thesis
      using that unfolding assms(5) win_values_def by (simp add: rem_def)
  qed
  have s1: "sorted sl1" using assms(4) by (simp add: sl1_def sorted_skiplist_remove)
  have m1: "mset sl1 = mset sl - (if rem then {#fval (arg ! (i - w))#} else {#})"
    by (simp add: sl1_def mset_skiplist_remove)
  have l1: "int (length sl1) = int (length sl) - (if rem then 1 else 0)"
  proof (cases rem)
    case True
    have "size (mset sl1) = size (mset sl) - 1"
      unfolding m1 using True mem by (simp add: size_Diff_singleton)
    moreover have "size (mset sl) \<ge> 1"
      using mem [OF True] by (metis One_nat_def Suc_leI size_eq_0_iff_empty empty_iff
          gr0I set_mset_empty)
    ultimately show ?thesis using True by (simp add: size_mset [symmetric] del: size_mset)
  next
    case False
    then show ?thesis by (simp add: sl1_def)
  qed
  have s2: "sorted sl2" using s1 by (simp add: sl2_def sorted_skiplist_insert)
  have m2: "mset sl2 = win_values arg w (Suc i)"
    unfolding ws by (simp add: sl2_def mset_skiplist_insert m1 assms(5) rem_def ins_def)
  have l2: "int (length sl2) = int (length sl1) + (if ins then 1 else 0)"
    using arg_cong [OF mset_skiplist_insert [of sl1 "fval (arg ! i)"], of size]
    by (simp add: sl2_def)
  have srt: "sort (window arg w i) = sl2"
    using m2 s2 unfolding win_values_window by (rule properties_for_sort)
  have res: "(if int (length sl2) \<ge> minp then median_of_window sl2 (int (length sl2)) else Inr NaN)
               = Inr (rolling_value arg w minp i)"
  proof (cases "int (length sl2) \<ge> minp")
    case True
    then have "1 \<le> length sl2" using assms(2) by simp
    from median_in_range [OF this] show ?thesis
      using True by (simp add: rolling_value_def srt)
  next
    case False
    then show ?thesis by (simp add: rolling_value_def srt)
  qed
  have "rolling_step arg w minp i (sl, int (length sl), out)
          = Inr (sl2, int (length sl2), out[i := rolling_value arg w minp i])"
  proof -
    have a: "(if w \<le> i \<and> feq (arg ! (i - w)) (arg ! (i - w))
               then (skiplist_remove sl (fval (arg ! (i - w))), int (length sl) - 1)
               else (sl, int (length sl))) = (sl1, int (length sl1))"
      using l1 by (simp add: sl1_def rem_def)
    have b: "(if feq (arg ! i) (arg ! i)
               then (skiplist_insert sl1 (fval (arg ! i)), int (length sl1) + 1)
               else (sl1, int (length sl1))) = (sl2, int (length sl2))"
      using l2 by (simp add: sl2_def ins_def)
    show ?thesis
      unfolding rolling_step_def by (simp only: prod.case Let_def a b res sum.case)
  qed
  then show ?thesis using s2 m2 by blast
qed

lemma rolling_decl_run:
  assumes "1 \<le> w" and "1 \<le> minp" and "i \<le> length arg" and "length out = length arg"
  shows "\<exists>sl out'. foldE (rolling_step arg w minp) [0..<i] ([], 0, out)
            = Inr (sl, int (length sl), out') \<and>
           sorted sl \<and> mset sl = win_values arg w i \<and> length out' = length arg \<and>
           (\<forall>j<i. out' ! j = rolling_value arg w minp j)"
  using assms(3)
proof (induction i)
  case 0
  show ?case using assms(4) by (simp add: win_values_0)
next
  case (Suc i)
  then obtain sl out' where
    run: "foldE (rolling_step arg w minp) [0..<i] ([], 0, out) = Inr (sl, int (length sl), out')"
    and s: "sorted sl" and m: "mset sl = win_values arg w i"
    and len: "length out' = length arg"
    and old: "\<forall>j<i. out' ! j = rolling_value arg w minp j"
    by auto
  have i: "i < length arg" using Suc.prems by simp
  from rolling_decl_step [OF assms(1,2) i s m, of out'] obtain sl' where
    st: "rolling_step arg w minp i (sl, int (length sl), out')
            = Inr (sl', int (length sl'), out'[i := rolling_value arg w minp i])"
    and s': "sorted sl'" and m': "mset sl' = win_values arg w (Suc i)"
    by blast
  have "\<forall>j<Suc i. (out'[i := rolling_value arg w minp i]) ! j = rolling_value arg w minp j"
    using old len i by (auto simp: nth_list_update less_Suc_eq)
  then show ?case using run st s' m' len by (simp add: foldE_append)
qed

lemma rolling_median_spec_values:
  assumes "1 \<le> w" and "1 \<le> minp"
  shows "rolling_median_spec arg w minp = Inr (map (rolling_value arg w minp) [0..<length arg])"
proof -
  have "length (np_empty (length arg) :: float64 list) = length arg" by (simp add: np_empty_def)
  from rolling_decl_run [OF assms order_refl this] obtain sl out' where
    "foldE (rolling_step arg w minp) [0..<length arg] ([], 0, np_empty (length arg))
            = Inr (sl, int (length sl), out')"
    and "length out' = length arg"
    and "\<forall>j<length arg. out' ! j = rolling_value arg w minp j"
    by blast
  moreover from this have "out' = map (rolling_value arg w minp) [0..<length arg]"
    by (intro nth_equalityI) auto
  ultimately show ?thesis by (simp add: rolling_median_spec_def)
qed


section \<open>Rolling median: the claims\<close>

lemma roll_median_example:
  "roll_median [Fin 1, NaN, Fin 3, Fin 5, Fin 2] 3 2 = Inr [NaN, NaN, Fin 2, Fin 4, Fin 3]"
  by (simp add: roll_median_def roll_median_minp_def check_minp_def roll_median_fill_def
      roll_median_step_def roll_median_res_def skiplist_init_def skiplist_insert_def
      skiplist_remove_def skiplist_get_def np_empty_def upt_rec Let_def)

lemma roll_median_values:
  assumes "1 \<le> win" and "roll_median_minp arg win minp = Inr minp'"
  shows "roll_median arg win minp = Inr (map (rolling_value arg (nat win) minp') [0..<length arg])"
proof -
  have "1 \<le> minp'"
    using check_minp_range(1) [of minp "int (length arg)" minp'] assms(2)
    by (simp add: roll_median_minp_def)
  moreover have "1 \<le> nat win" "0 \<le> win" using assms(1) by simp_all
  ultimately show ?thesis
    using roll_median_eq_spec(1) [OF _ assms(2)] rolling_median_spec_values [of "nat win" minp' arg]
    by simp
qed

text \<open>
  C3. For a window width \<open>win \<ge> 0\<close>, \<open>roll_median\<close> returns one output per input position
  and is the position-by-position procedure of the specification, run with the clamped
  threshold: the value leaving the window is removed when it is not NaN, the incoming
  value is inserted when it is not NaN, and the output is the median of the live values
  (the middle one, or the mean of the two middle ones) when their number reaches the
  threshold, NaN otherwise. For \<open>win \<ge> 1\<close> the live values at position \<open>i\<close> are the
  values that are not NaN among the last \<open>win\<close> positions up to \<open>i\<close>. Window 3 and
  threshold 2 over \<open>[1, NaN, 3, 5, 2]\<close> give \<open>[NaN, NaN, 2, 4, 3]\<close>.
\<close>

theorem roll_median_positions:
  "(0 \<le> win \<and> roll_median_minp arg win minp = Inr minp' \<longrightarrow>
      roll_median arg win minp = rolling_median_spec arg (nat win) minp' \<and>
      (\<exists>out. roll_median arg win minp = Inr out \<and> length out = length arg)) \<and>
   (1 \<le> win \<and> roll_median_minp arg win minp = Inr minp' \<longrightarrow>
      roll_median arg win minp = Inr (map (rolling_value arg (nat win) minp') [0..<length arg])) \<and>
   roll_median [Fin 1, NaN, Fin 3, Fin 5, Fin 2] 3 2 = Inr [NaN, NaN, Fin 2, Fin 4, Fin 3]"
proof -
  have 1: "0 \<le> win \<and> roll_median_minp arg win minp = Inr minp' \<longrightarrow>
      roll_median arg win minp = rolling_median_spec arg (nat win) minp' \<and>
      (\<exists>out. roll_median arg win minp = Inr out \<and> length out = length arg)"
  proof
    assume h: "0 \<le> win \<and> roll_median_minp arg win minp = Inr minp'"
    then have a: "0 \<le> win" and b: "roll_median_minp arg win minp = Inr minp'" by simp_all
    from roll_median_eq_spec [OF a b]
    show "roll_median arg win minp = rolling_median_spec arg (nat win) minp' \<and>
      (\<exists>out. roll_median arg win minp = Inr out \<and> length out = length arg)"
      by (rule conjI)
  qed
  have 2: "1 \<le> win \<and> roll_median_minp arg win minp = Inr minp' \<longrightarrow>
      roll_median arg win minp = Inr (map (rolling_value arg (nat win) minp') [0..<length arg])"
  proof
    assume h: "1 \<le> win \<and> roll_median_minp arg win minp = Inr minp'"
    then have a: "1 \<le> win" and b: "roll_median_minp arg win minp = Inr minp'" by simp_all
    from a b show "roll_median arg win minp
        = Inr (map (rolling_value arg (nat win) minp') [0..<length arg])"
      by (rule roll_median_values)
  qed
  show ?thesis
    apply (intro conjI)
      apply (rule 1)
     apply (rule 2)
    apply (rule roll_median_example)
    done
qed

lemma roll_median_example2:
  "roll_median [Fin 4, Fin 1, NaN, Fin 2] 2 1 = Inr [Fin 4, Fin (5 / 2), Fin 1, Fin 2]"
  by (simp add: roll_median_def roll_median_minp_def check_minp_def roll_median_fill_def
      roll_median_step_def roll_median_res_def skiplist_init_def skiplist_insert_def
      skiplist_remove_def skiplist_get_def np_empty_def upt_rec Let_def)

theorem roll_median_positions_witness:
  "(1::int) \<le> 2 \<and>
   roll_median_minp [Fin 4, Fin 1, NaN, Fin 2] 2 1 = Inr 1 \<and>
   roll_median [Fin 4, Fin 1, NaN, Fin 2] 2 1 = Inr [Fin 4, Fin (5 / 2), Fin 1, Fin 2] \<and>
   rolling_median_spec [Fin 4, Fin 1, NaN, Fin 2] (nat 2) 1 = Inr [Fin 4, Fin (5 / 2), Fin 1, Fin 2] \<and>
   map (rolling_value [Fin 4, Fin 1, NaN, Fin 2] (nat 2) 1) [0..<length [Fin 4, Fin 1, NaN, Fin 2]]
     = [Fin 4, Fin (5 / 2), Fin 1, Fin 2]"
proof -
  let ?a = "[Fin 4, Fin 1, NaN, Fin 2]"
  have cl: "roll_median_minp ?a 2 1 = Inr 1"
    by (simp add: roll_median_minp_def check_minp_def)
  have h0: "(0::int) \<le> 2 \<and> roll_median_minp ?a 2 1 = Inr 1" using cl by simp
  have h1: "(1::int) \<le> 2 \<and> roll_median_minp ?a 2 1 = Inr 1" using cl by simp
  note t = roll_median_positions [of 2 ?a 1 1]
  from t have t0: "(0::int) \<le> 2 \<and> roll_median_minp ?a 2 1 = Inr 1 \<longrightarrow>
      roll_median ?a 2 1 = rolling_median_spec ?a (nat 2) 1 \<and>
      (\<exists>out. roll_median ?a 2 1 = Inr out \<and> length out = length ?a)"
    by (rule conjunct1)
  from t have t1: "(1::int) \<le> 2 \<and> roll_median_minp ?a 2 1 = Inr 1 \<longrightarrow>
      roll_median ?a 2 1 = Inr (map (rolling_value ?a (nat 2) 1) [0..<length ?a])"
    by (rule conjunct2 [THEN conjunct1])
  from t0 h0 have s: "roll_median ?a 2 1 = rolling_median_spec ?a (nat 2) 1"
    by (rule mp [THEN conjunct1])
  from t1 h1 have v: "roll_median ?a 2 1 = Inr (map (rolling_value ?a (nat 2) 1) [0..<length ?a])"
    by (rule mp)
  have "(1::int) \<le> 2" by simp
  moreover note cl roll_median_example2
  moreover have "rolling_median_spec ?a (nat 2) 1 = Inr [Fin 4, Fin (5 / 2), Fin 1, Fin 2]"
    using s roll_median_example2 by simp
  moreover have "map (rolling_value ?a (nat 2) 1) [0..<length ?a] = [Fin 4, Fin (5 / 2), Fin 1, Fin 2]"
    using v roll_median_example2 by simp
  ultimately show ?thesis by (intro conjI)
qed






end
